theory Spec2Isabelle
  imports Main "HOL-Library.Sublist"
begin

section \<open>Strings and numbers as the sources use them\<close>

text \<open>
  JavaScript strings are modelled as \<open>string\<close>. The string methods the sources call are
  written out here once: \<open>startsWith\<close>, \<open>endsWith\<close>, \<open>includes\<close>, \<open>toLowerCase\<close> (on
  ASCII letters), \<open>split\<close>, \<open>join\<close>, \<open>lastIndexOf\<close>, \<open>Number.prototype.toString\<close> in
  radix 10 and 16, and the two regular-expression replacements of \<open>src/utils/path.ts\<close>.
\<close>

definition startsWith :: "string \<Rightarrow> string \<Rightarrow> bool" where
  "startsWith s p = prefix p s"

definition endsWith :: "string \<Rightarrow> string \<Rightarrow> bool" where
  "endsWith s p = suffix p s"

fun includes_str :: "string \<Rightarrow> string \<Rightarrow> bool" where
  "includes_str [] p = (p = [])"
| "includes_str (c # cs) p = (prefix p (c # cs) \<or> includes_str cs p)"

definition toLowerChar :: "char \<Rightarrow> char" where
  "toLowerChar c =
     (case map_of (zip ''ABCDEFGHIJKLMNOPQRSTUVWXYZ'' ''abcdefghijklmnopqrstuvwxyz'') c of
        Some l \<Rightarrow> l
      | None \<Rightarrow> c)"

definition toLowerCase :: "string \<Rightarrow> string" where
  "toLowerCase s = map toLowerChar s"

text \<open>\<open>s.lastIndexOf(c)\<close>: the last position of \<open>c\<close>, or \<open>-1\<close>.\<close>

fun lastIndexOf :: "string \<Rightarrow> char \<Rightarrow> int" where
  "lastIndexOf [] c = -1"
| "lastIndexOf (d # ds) c =
     (let i = lastIndexOf ds c in if i \<ge> 0 then i + 1 else if d = c then 0 else -1)"

text \<open>\<open>s.split(sep)\<close> for a one-character separator; the result is never empty.\<close>

fun splitOn :: "char \<Rightarrow> string \<Rightarrow> string list" where
  "splitOn sep [] = [[]]"
| "splitOn sep (c # cs) =
     (if c = sep then [] # splitOn sep cs
      else (case splitOn sep cs of
              [] \<Rightarrow> [[c]]
            | s # ss \<Rightarrow> (c # s) # ss))"

text \<open>\<open>xs.join(sep)\<close>.\<close>

fun joinWith :: "string \<Rightarrow> string list \<Rightarrow> string" where
  "joinWith sep [] = []"
| "joinWith sep [s] = s"
| "joinWith sep (s # t # ss) = s @ sep @ joinWith sep (t # ss)"

text \<open>\<open>s.replace(/^\/+/, '')\<close>: drop every leading slash.\<close>

definition stripLeadingSlashes :: "string \<Rightarrow> string" where
  "stripLeadingSlashes s = dropWhile (\<lambda>c. c = CHR ''/'') s"

text \<open>\<open>s.replace(/\/+/g, '/')\<close>: every maximal run of slashes becomes one slash.\<close>

fun collapseSlashes :: "string \<Rightarrow> string" where
  "collapseSlashes [] = []"
| "collapseSlashes [c] = [c]"
| "collapseSlashes (c # d # cs) =
     (if c = CHR ''/'' \<and> d = CHR ''/'' then collapseSlashes (d # cs)
      else c # collapseSlashes (d # cs))"

text \<open>
  \<open>n.toString(16)\<close> and \<open>n.toString()\<close> on integers: most significant digit first, no
  leading zero, a minus sign before the digits of a negative number.
\<close>

definition hexDigits :: string where
  "hexDigits = ''0123456789abcdef''"

fun hexOfNat :: "nat \<Rightarrow> string" where
  "hexOfNat n =
     (if n < 16 then [hexDigits ! n] else hexOfNat (n div 16) @ [hexDigits ! (n mod 16)])"

declare hexOfNat.simps [simp del]

definition hexOfInt :: "int \<Rightarrow> string" where
  "hexOfInt i = (if i < 0 then CHR ''-'' # hexOfNat (nat (- i)) else hexOfNat (nat i))"

fun decOfNat :: "nat \<Rightarrow> string" where
  "decOfNat n =
     (if n < 10 then [hexDigits ! n] else decOfNat (n div 10) @ [hexDigits ! (n mod 10)])"

declare decOfNat.simps [simp del]

definition decOfInt :: "int \<Rightarrow> string" where
  "decOfInt i = (if i < 0 then CHR ''-'' # decOfNat (nat (- i)) else decOfNat (nat i))"

section \<open>The runtime's POSIX path module\<close>

text \<open>
  \<open>src/utils/path.ts\<close> and the handler import \<open>join\<close>, \<open>normalize\<close>, \<open>resolve\<close> and \<open>sep\<close>
  from the runtime's \<open>path\<close> module. They are modelled here in their POSIX form
  (\<open>sep = "/"\<close>), following the reference algorithm of the module: the path is cut at
  slashes; an empty segment and \<open>.\<close> are skipped; \<open>..\<close> removes the last kept segment,
  and where there is none it is kept only when the path is relative
  (\<open>allowAboveRoot\<close>). The kept segments are held most recent first.
\<close>

fun normalizeSegments :: "bool \<Rightarrow> string list \<Rightarrow> string list \<Rightarrow> string list" where
  "normalizeSegments allowAboveRoot res [] = rev res"
| "normalizeSegments allowAboveRoot res (seg # segs) =
     (if seg = [] \<or> seg = ''.'' then normalizeSegments allowAboveRoot res segs
      else if seg = ''..'' then
        (if res \<noteq> [] \<and> hd res \<noteq> ''..'' then normalizeSegments allowAboveRoot (tl res) segs
         else if allowAboveRoot then normalizeSegments allowAboveRoot (''..'' # res) segs
         else normalizeSegments allowAboveRoot res segs)
      else normalizeSegments allowAboveRoot (seg # res) segs)"

definition normalizeString :: "string \<Rightarrow> bool \<Rightarrow> string" where
  "normalizeString path allowAboveRoot =
     joinWith ''/'' (normalizeSegments allowAboveRoot [] (splitOn CHR ''/'' path))"

definition isAbsolute :: "string \<Rightarrow> bool" where
  "isAbsolute path \<longleftrightarrow> path \<noteq> [] \<and> hd path = CHR ''/''"

definition path_normalize :: "string \<Rightarrow> string" where
  "path_normalize path =
     (if path = [] then ''.''
      else
        let trailingSeparator = (last path = CHR ''/'');
            p = normalizeString path (\<not> isAbsolute path)
        in if p = [] then
             (if isAbsolute path then ''/'' else if trailingSeparator then ''./'' else ''.'')
           else
             (if isAbsolute path then ''/'' else []) @ p @ (if trailingSeparator then ''/'' else []))"

text \<open>\<open>join(a, b)\<close>: the non-empty arguments, joined by a slash, then normalised.\<close>

definition path_join :: "string \<Rightarrow> string \<Rightarrow> string" where
  "path_join a b =
     (if a = [] \<and> b = [] then ''.''
      else if a = [] then path_normalize b
      else if b = [] then path_normalize a
      else path_normalize (a @ ''/'' @ b))"

text \<open>
  \<open>resolve(path)\<close> with one argument: a relative (or empty) path is taken from the
  current working directory \<open>cwd\<close> of the process, which the model takes as a parameter.
  The result has no trailing slash.
\<close>

definition path_resolve :: "string \<Rightarrow> string \<Rightarrow> string" where
  "path_resolve cwd path =
     (let resolvedPath = (if path = [] then [] else path @ ''/'');
          resolvedAbsolute = isAbsolute path;
          resolvedPath' = (if resolvedAbsolute \<or> cwd = [] then resolvedPath
                           else cwd @ ''/'' @ resolvedPath);
          resolvedAbsolute' = (if resolvedAbsolute \<or> cwd = [] then resolvedAbsolute
                               else isAbsolute cwd);
          res = normalizeString resolvedPath' (\<not> resolvedAbsolute')
      in if resolvedAbsolute' then CHR ''/'' # res
         else if res \<noteq> [] then res else ''.'')"

section \<open>src/utils/path.ts\<close>

text \<open>
  \<open>normalizeUrlPath\<close>: the empty string (falsy) and \<open>"/"\<close> give \<open>"/"\<close>; otherwise one
  leading slash, runs of slashes collapsed, and one trailing slash cut with
  \<open>slice(0, -1)\<close> when the result is longer than one character.
\<close>

definition normalizeUrlPath :: "string \<Rightarrow> string" where
  "normalizeUrlPath urlPath =
     (if urlPath = [] \<or> urlPath = ''/'' then ''/''
      else
        let normalized = CHR ''/'' # collapseSlashes (stripLeadingSlashes urlPath)
        in if length normalized > 1 \<and> endsWith normalized ''/''
           then butlast normalized
           else normalized)"

definition resolveStaticPath :: "string \<Rightarrow> string \<Rightarrow> string" where
  "resolveStaticPath rootDir urlPath =
     (let normalizedPath = stripLeadingSlashes urlPath
      in path_normalize (path_join rootDir normalizedPath))"

text \<open>
  \<open>isPathUnderRoot\<close>. The index \<open>normalizedPath[normalizedRoot.length]\<close> is \<open>undefined\<close>
  past the end of the string, which is not the separator.
\<close>

definition isPathUnderRoot :: "string \<Rightarrow> string \<Rightarrow> string \<Rightarrow> bool" where
  "isPathUnderRoot cwd filePath rootDir =
     (let normalizedPath = path_resolve cwd filePath;
          normalizedRoot = path_resolve cwd rootDir
      in normalizedPath = normalizedRoot \<or>
         (startsWith normalizedPath normalizedRoot \<and>
          (endsWith normalizedRoot ''/'' \<or>
           (length normalizedRoot < length normalizedPath \<and>
            normalizedPath ! length normalizedRoot = CHR ''/''))))"

definition createDirectoryUrl :: "(string \<Rightarrow> string) \<Rightarrow> string \<Rightarrow> string \<Rightarrow> string" where
  "createDirectoryUrl encodeURIComponent currentUrlPath dirName =
     (let base = (if endsWith currentUrlPath ''/'' then currentUrlPath else currentUrlPath @ ''/'')
      in base @ encodeURIComponent dirName @ ''/'')"

definition createFileUrl :: "(string \<Rightarrow> string) \<Rightarrow> string \<Rightarrow> string \<Rightarrow> string" where
  "createFileUrl encodeURIComponent currentUrlPath fileName =
     (let base = (if endsWith currentUrlPath ''/'' then currentUrlPath else currentUrlPath @ ''/'')
      in base @ encodeURIComponent fileName)"

definition getParentDirectoryUrl :: "string \<Rightarrow> string option" where
  "getParentDirectoryUrl urlPath =
     (if urlPath = ''/'' \<or> urlPath = [] then None
      else
        let path = (if endsWith urlPath ''/'' then butlast urlPath else urlPath);
            lastSlashIndex = lastIndexOf path CHR ''/''
        in if lastSlashIndex \<le> 0 then Some ''/''
           else Some (take (nat lastSlashIndex) path @ ''/''))"

section \<open>src/utils/mime.ts\<close>

definition mimeTypes :: "(string \<times> string) list" where
  "mimeTypes =
     [(''.html'', ''text/html''), (''.css'', ''text/css''), (''.js'', ''application/javascript''),
      (''.json'', ''application/json''), (''.png'', ''image/png''), (''.jpg'', ''image/jpeg''),
      (''.gif'', ''image/gif''), (''.svg'', ''image/svg+xml''), (''.wav'', ''audio/wav''),
      (''.mp4'', ''video/mp4''), (''.woff'', ''application/font-woff''),
      (''.ttf'', ''application/font-ttf''), (''.eot'', ''application/vnd.ms-fontobject''),
      (''.otf'', ''application/font-otf''), (''.wasm'', ''application/wasm''),
      (''.jsx'', ''text/jsx''), (''.tsx'', ''application/typescript''),
      (''.md'', ''text/markdown''), (''.webmanifest'', ''application/manifest+json'')]"

definition getMimeType :: "string \<Rightarrow> string" where
  "getMimeType ext =
     (case map_of mimeTypes (toLowerCase ext) of
        Some t \<Rightarrow> t
      | None \<Rightarrow> ''application/octet-stream'')"

section \<open>Fetch objects: Headers, Request, Response\<close>

text \<open>
  A \<open>Headers\<close> object is observed through \<open>get\<close>, \<open>set\<close> and \<open>delete\<close>, which compare
  names without regard to case: it is a map from the lower-cased name to the value.
\<close>

type_synonym Headers = "string \<rightharpoonup> string"

definition headers_get :: "Headers \<Rightarrow> string \<Rightarrow> string option" where
  "headers_get h name = h (toLowerCase name)"

definition headers_set :: "Headers \<Rightarrow> string \<Rightarrow> string \<Rightarrow> Headers" where
  "headers_set h name v = h(toLowerCase name \<mapsto> v)"

definition headers_delete :: "Headers \<Rightarrow> string \<Rightarrow> Headers" where
  "headers_delete h name = h(toLowerCase name := None)"

text \<open>\<open>headers.get(name) || ''\<close>.\<close>

definition headers_get_or_empty :: "Headers \<Rightarrow> string \<Rightarrow> string" where
  "headers_get_or_empty h name = (case headers_get h name of None \<Rightarrow> [] | Some v \<Rightarrow> v)"

record Request =
  "method" :: string
  url :: string
  req_headers :: Headers

text \<open>
  A \<open>Response\<close> has a status, a status text, headers, and a body that is \<open>null\<close>
  (\<open>None\<close>) or a byte sequence that can be read once: \<open>bodyUsed\<close> records that it has
  been read. The checks of the constructor on the status (its range, a body with a
  null-body status) are not part of the model: the responses built in this repository
  have the statuses 200, 204 (with a null body), 301, 403, 404, 405 and 500, or the
  status of a response that exists already.
\<close>

record Response =
  status :: nat
  statusText :: string
  headers :: Headers
  body :: "string option"
  bodyUsed :: bool

definition new_Response :: "string option \<Rightarrow> nat \<Rightarrow> string \<Rightarrow> Headers \<Rightarrow> Response" where
  "new_Response b st txt h =
     \<lparr>status = st, statusText = txt, headers = h, body = b, bodyUsed = False\<rparr>"

text \<open>
  \<open>new Response(text, init)\<close> with a string body: the response carries the headers of
  \<open>init\<close> as they are; the runtime adds no \<open>Content-Type\<close> of its own.
\<close>

definition new_Response_text :: "string \<Rightarrow> nat \<Rightarrow> Headers \<Rightarrow> Response" where
  "new_Response_text txt st h = new_Response (Some txt) st [] h"

text \<open>\<open>response.ok\<close>.\<close>

definition ok :: "Response \<Rightarrow> bool" where
  "ok r \<longleftrightarrow> 200 \<le> status r \<and> status r \<le> 299"

section \<open>src/handler.ts\<close>

text \<open>
  The filesystem and the other services of the runtime are parameters of the handler:
  \<open>stat\<close> fails with an error code or gives the \<open>Stats\<close> the handler reads (the size
  in bytes, the modification time as the milliseconds of \<open>mtime.getTime()\<close>).
  \<open>formatSize\<close> (floating-point logarithms) and \<open>generateDirectoryListing\<close> (the HTML
  template, with dates in the locale's format) are taken as parameters as well.
  Every call of a filesystem operation is recorded, with its path, in the order the
  handler makes it; \<open>Bun.file(path)\<close>, the lazily read body of a served file, is
  recorded as \<open>BunFile path\<close> and its bytes are \<open>fileContents path\<close>.
\<close>

record Stats =
  isFile :: bool
  isDirectory :: bool
  size_bytes :: nat
  mtime_ms :: int

datatype fs_error = ENOENT | EOTHER

datatype fs_op = Stat string | ExistsSync string | Readdir string | BunFile string

fun fs_path :: "fs_op \<Rightarrow> string" where
  "fs_path (Stat p) = p"
| "fs_path (ExistsSync p) = p"
| "fs_path (Readdir p) = p"
| "fs_path (BunFile p) = p"

record FileEntry =
  entry_name :: string
  entry_path :: string
  entry_size :: string
  entry_mtime :: string
  entry_type :: string
  entry_isDirectory :: bool

record platform =
  cwd :: string
  stat :: "string \<Rightarrow> fs_error + Stats"
  existsSync :: "string \<Rightarrow> bool"
  readdir :: "string \<Rightarrow> fs_error + string list"
  fileContents :: "string \<Rightarrow> string"
  extname :: "string \<Rightarrow> string"
  toUTCString :: "int \<Rightarrow> string"
  toISOString :: "int \<Rightarrow> string"
  encodeURIComponent :: "string \<Rightarrow> string"
  localeCompare :: "string \<Rightarrow> string \<Rightarrow> int"
  formatSize :: "nat \<Rightarrow> string"
  generateDirectoryListing :: "string \<Rightarrow> FileEntry list \<Rightarrow> string option \<Rightarrow> string"

record HandlerOptions =
  enableSPA :: bool
  enableDirectoryListing :: bool

text \<open>The weak validator of \<open>serveFile\<close>: \<open>W/"<size in hex>-<mtime in hex>"\<close>.\<close>

definition etag :: "Stats \<Rightarrow> string" where
  \<open>etag stats = ''W/"'' @ hexOfNat (size_bytes stats) @ ''-'' @ hexOfInt (mtime_ms stats) @ ''"''\<close>

definition serveFile :: "platform \<Rightarrow> string \<Rightarrow> Stats \<Rightarrow> string \<Rightarrow> Response \<times> fs_op list" where
  "serveFile P filePath stats method' =
     (let ext = toLowerCase (extname P filePath);
          contentType = getMimeType ext;
          h1 = headers_set Map.empty ''Content-Type'' contentType;
          h2 = headers_set h1 ''Last-Modified'' (toUTCString P (mtime_ms stats));
          h3 = headers_set h2 ''ETag'' (etag stats)
      in if method' = ''HEAD''
         then (new_Response None 200 []
                 (headers_set h3 ''Content-Length'' (decOfNat (size_bytes stats))), [])
         else (new_Response (Some (fileContents P filePath)) 200 [] h3, [BunFile filePath]))"

text \<open>\<open>files.sort(compare)\<close>: a stable sort by the comparison function.\<close>

fun insertBy :: "('a \<Rightarrow> 'a \<Rightarrow> int) \<Rightarrow> 'a \<Rightarrow> 'a list \<Rightarrow> 'a list" where
  "insertBy cmp x [] = [x]"
| "insertBy cmp x (y # ys) = (if cmp x y \<le> 0 then x # y # ys else y # insertBy cmp x ys)"

definition sortBy :: "('a \<Rightarrow> 'a \<Rightarrow> int) \<Rightarrow> 'a list \<Rightarrow> 'a list" where
  "sortBy cmp xs = foldr (insertBy cmp) xs []"

definition compareEntries :: "platform \<Rightarrow> FileEntry \<Rightarrow> FileEntry \<Rightarrow> int" where
  "compareEntries P a b =
     (if entry_isDirectory a \<and> \<not> entry_isDirectory b then -1
      else if \<not> entry_isDirectory a \<and> entry_isDirectory b then 1
      else localeCompare P (entry_name a) (entry_name b))"

text \<open>One entry of the listing; an entry whose \<open>stat\<close> fails is dropped.\<close>

definition makeEntry :: "platform \<Rightarrow> string \<Rightarrow> string \<Rightarrow> string \<Rightarrow> FileEntry option" where
  "makeEntry P dirPath urlPath entry =
     (let entryPath = path_join dirPath entry
      in case stat P entryPath of
           Inl e \<Rightarrow> None
         | Inr entryStat \<Rightarrow>
             let isDir = isDirectory entryStat
             in Some \<lparr>entry_name = entry,
                      entry_path = (if isDir then createDirectoryUrl (encodeURIComponent P) urlPath entry
                                    else createFileUrl (encodeURIComponent P) urlPath entry),
                      entry_size = formatSize P (size_bytes entryStat),
                      entry_mtime = toISOString P (mtime_ms entryStat),
                      entry_type = (if isDir then ''directory'' else getMimeType (extname P entry)),
                      entry_isDirectory = isDir\<rparr>)"

definition serveDirectory :: "platform \<Rightarrow> string \<Rightarrow> string \<Rightarrow> Response \<times> fs_op list" where
  "serveDirectory P dirPath urlPath =
     (case readdir P dirPath of
        Inl e \<Rightarrow> (new_Response_text ''Internal Server Error'' 500 Map.empty, [Readdir dirPath])
      | Inr entries \<Rightarrow>
          let files = List.map_filter (makeEntry P dirPath urlPath) entries;
              sorted = sortBy (compareEntries P) files;
              parent = getParentDirectoryUrl urlPath;
              html = generateDirectoryListing P urlPath sorted parent
          in (new_Response_text html 200
                (headers_set Map.empty ''Content-Type'' ''text/html; charset=utf-8''),
              Readdir dirPath # map (\<lambda>entry. Stat (path_join dirPath entry)) entries))"

definition methodNotAllowed :: Response where
  "methodNotAllowed =
     new_Response_text ''Method Not Allowed'' 405 (headers_set Map.empty ''Allow'' ''GET, HEAD'')"

definition forbidden :: Response where
  "forbidden = new_Response_text ''Forbidden'' 403 Map.empty"

definition notFound :: Response where
  "notFound = new_Response_text ''Not Found'' 404 (headers_set Map.empty ''Content-Type'' ''text/plain'')"

definition redirect :: "string \<Rightarrow> Response" where
  "redirect redirectUrl =
     new_Response None 301 []
       (headers_set (headers_set (headers_set Map.empty ''Location'' redirectUrl)
          ''Content-Type'' ''text/plain'') ''Content-Length'' ''0'')"

text \<open>
  \<open>existsSync(indexPath)\<close>, then \<open>stat\<close> and \<open>serveFile\<close> inside a \<open>try\<close>: the pattern
  the handler uses for the index of a directory and for the SPA fallback. \<open>None\<close> means
  the handler goes on to its next case.
\<close>

definition serveIndex :: "platform \<Rightarrow> string \<Rightarrow> string \<Rightarrow> Response option \<times> fs_op list" where
  "serveIndex P indexPath method' =
     (if existsSync P indexPath then
        (case stat P indexPath of
           Inl e \<Rightarrow> (None, [ExistsSync indexPath, Stat indexPath])
         | Inr indexStats \<Rightarrow>
             (Some (fst (serveFile P indexPath indexStats method')),
              [ExistsSync indexPath, Stat indexPath] @ snd (serveFile P indexPath indexStats method')))
      else (None, [ExistsSync indexPath]))"

definition handler ::
  "platform \<Rightarrow> string \<Rightarrow> string \<Rightarrow> string \<Rightarrow> HandlerOptions \<Rightarrow> Response \<times> fs_op list" where
  "handler P rootDir requestPath0 method' options =
     (if method' \<noteq> ''GET'' \<and> method' \<noteq> ''HEAD'' then (methodNotAllowed, [])
      else
        let requestPath = normalizeUrlPath requestPath0;
            filePath = resolveStaticPath rootDir requestPath
        in if \<not> isPathUnderRoot (cwd P) filePath rootDir then (forbidden, [])
           else
             (case stat P filePath of
                Inr stats \<Rightarrow>
                  if isFile stats then
                    (fst (serveFile P filePath stats method'),
                     Stat filePath # snd (serveFile P filePath stats method'))
                  else if isDirectory stats then
                    (if \<not> endsWith requestPath ''/'' then
                       (redirect (requestPath @ ''/''), [Stat filePath])
                     else
                       let indexPath = path_join filePath ''index.html''
                       in case serveIndex P indexPath method' of
                            (Some r, t) \<Rightarrow> (r, Stat filePath # t)
                          | (None, t) \<Rightarrow>
                              if enableDirectoryListing options then
                                (fst (serveDirectory P filePath requestPath),
                                 Stat filePath # t @ snd (serveDirectory P filePath requestPath))
                              else (notFound, Stat filePath # t))
                  else (notFound, [Stat filePath])
              | Inl error \<Rightarrow>
                  if enableSPA options \<and> error = ENOENT then
                    (let indexPath = path_join rootDir ''index.html''
                     in case serveIndex P indexPath method' of
                          (Some r, t) \<Rightarrow> (r, Stat filePath # t)
                        | (None, t) \<Rightarrow> (notFound, Stat filePath # t))
                  else (notFound, [Stat filePath])))"

section \<open>Response objects in the middleware\<close>

text \<open>
  The middleware keep, copy and read \<open>Response\<close> objects, and a body can be read only
  once, so the objects live in a store: a reference is an index into the list of the
  objects created so far. The other shared state of the process is the module-level
  \<open>memoryCache\<close> of \<open>src/middleware/cache.ts\<close>, a \<open>Map\<close> in insertion order from the cache
  key to the stored response and its expiry time.
\<close>

record CacheEntry =
  data :: nat
  expires :: int

record world =
  objects :: "Response list"
  memoryCache :: "(string \<times> CacheEntry) list"

datatype error = TypeError

type_synonym 'a io = "world \<Rightarrow> (error + 'a) \<times> world"

type_synonym Middleware = "Request \<Rightarrow> nat io \<Rightarrow> nat io"

text \<open>\<open>new Response(...)\<close>: a new object, with a reference no earlier object has.\<close>

definition alloc :: "Response \<Rightarrow> nat io" where
  "alloc r w = (Inr (length (objects w)), w\<lparr>objects := objects w @ [r]\<rparr>)"

text \<open>
  \<open>response.clone()\<close> throws a \<open>TypeError\<close> when the body has been read; otherwise the
  copy is a new object with a body of its own.
\<close>

definition clone :: "nat \<Rightarrow> nat io" where
  "clone r w =
     (let response = objects w ! r
      in if bodyUsed response then (Inl TypeError, w) else alloc response w)"

text \<open>
  \<open>response.arrayBuffer()\<close> reads the body: a \<open>null\<close> body gives no bytes; a body that
  has been read rejects with a \<open>TypeError\<close>; otherwise the bytes are returned and the
  object is marked as read.
\<close>

definition arrayBuffer :: "nat \<Rightarrow> string io" where
  "arrayBuffer r w =
     (let response = objects w ! r
      in case body response of
           None \<Rightarrow> (Inr [], w)
         | Some bytes \<Rightarrow>
             if bodyUsed response then (Inl TypeError, w)
             else (Inr bytes, w\<lparr>objects := (objects w)[r := response\<lparr>bodyUsed := True\<rparr>]\<rparr>))"


section \<open>The Map of src/middleware/cache.ts\<close>

text \<open>
  A JavaScript \<open>Map\<close> iterates in insertion order; \<open>set\<close> on a key that is present
  replaces the value and keeps the key's position; \<open>keys().next().value\<close> is the oldest
  key.
\<close>

definition map_get :: "(string \<times> 'v) list \<Rightarrow> string \<Rightarrow> 'v option" where
  "map_get m k = map_of m k"

definition map_delete :: "(string \<times> 'v) list \<Rightarrow> string \<Rightarrow> (string \<times> 'v) list" where
  "map_delete m k = filter (\<lambda>e. fst e \<noteq> k) m"

definition map_set :: "(string \<times> 'v) list \<Rightarrow> string \<Rightarrow> 'v \<Rightarrow> (string \<times> 'v) list" where
  "map_set m k v =
     (if k \<in> set (map fst m) then map (\<lambda>e. if fst e = k then (k, v) else e) m
      else m @ [(k, v)])"

section \<open>src/middleware/cache.ts\<close>

record CacheOptions =
  maxAge :: int
  maxSize :: int

definition defaultCacheOptions :: CacheOptions where
  "defaultCacheOptions = \<lparr>maxAge = 0, maxSize = 100\<rparr>"

text \<open>
  The middleware returned by \<open>cache(options)\<close>. \<open>now\<close> is the value of \<open>Date.now()\<close>
  the call reads. Creating a middleware reads the options and nothing else: every
  middleware works on the one \<open>memoryCache\<close> of the world.
\<close>

definition storeResponse :: "CacheOptions \<Rightarrow> int \<Rightarrow> string \<Rightarrow> nat \<Rightarrow> nat io" where
  "storeResponse options now cacheKey response w =
     (case clone response w of
        (Inl e, w') \<Rightarrow> (Inl e, w')
      | (Inr copy, w') \<Rightarrow>
          let m = map_set (memoryCache w') cacheKey
                    \<lparr>data = copy, expires = now + maxAge options * 1000\<rparr>;
              m' = (if int (length m) > maxSize options then
                      (case m of [] \<Rightarrow> m | oldest # rest \<Rightarrow> map_delete m (fst oldest))
                    else m)
          in (Inr response, w'\<lparr>memoryCache := m'\<rparr>))"

definition cacheMiss :: "CacheOptions \<Rightarrow> int \<Rightarrow> string \<Rightarrow> nat io \<Rightarrow> nat io" where
  "cacheMiss options now cacheKey next w =
     (case next w of
        (Inl e, w') \<Rightarrow> (Inl e, w')
      | (Inr response, w') \<Rightarrow>
          if ok (objects w' ! response) then storeResponse options now cacheKey response w'
          else (Inr response, w'))"

definition cache :: "CacheOptions \<Rightarrow> int \<Rightarrow> Middleware" where
  "cache options now req next w =
     (if method req \<noteq> ''GET'' \<or> maxAge options \<le> 0 then next w
      else
        let cacheKey = url req
        in case map_get (memoryCache w) cacheKey of
             None \<Rightarrow> cacheMiss options now cacheKey next w
           | Some cached \<Rightarrow>
               if expires cached > now then
                 clone (data cached)
                   (w\<lparr>memoryCache :=
                        map_set (map_delete (memoryCache w) cacheKey) cacheKey cached\<rparr>)
               else cacheMiss options now cacheKey next w)"

section \<open>src/middleware/compression.ts\<close>

record CompressionOptions =
  level :: int
  types :: "string list"

definition defaultCompressionOptions :: CompressionOptions where
  "defaultCompressionOptions =
     \<lparr>level = 6,
      types = [''text/plain'', ''text/html'', ''text/css'', ''text/javascript'',
               ''application/javascript'', ''application/json'', ''application/xml'',
               ''image/svg+xml'']\<rparr>"

text \<open>The two compressors of \<open>node:zlib\<close>, from the bytes and the level to the bytes.\<close>

record zlib =
  brotliCompressSync :: "string \<Rightarrow> int \<Rightarrow> string"
  gzipSync :: "string \<Rightarrow> int \<Rightarrow> string"

definition compressed ::
  "string \<Rightarrow> string \<Rightarrow> nat \<Rightarrow> nat io" where
  "compressed bytes encoding response w =
     (let r = objects w ! response;
          h = headers_delete (headers_set (headers r) ''Content-Encoding'' encoding)
                ''Content-Length''
      in alloc (new_Response (Some bytes) (status r) (statusText r) h) w)"

definition compression :: "zlib \<Rightarrow> CompressionOptions \<Rightarrow> Middleware" where
  "compression Z options req next w =
     (let acceptEncoding = headers_get_or_empty (req_headers req) ''Accept-Encoding''
      in case next w of
           (Inl e, w') \<Rightarrow> (Inl e, w')
         | (Inr response, w') \<Rightarrow>
             let contentType = headers_get_or_empty (headers (objects w' ! response)) ''Content-Type'';
                 shouldCompress = list_ex (\<lambda>t. includes_str contentType t) (types options)
             in if \<not> shouldCompress then (Inr response, w')
                else
                  (case arrayBuffer response w' of
                     (Inl e, w'') \<Rightarrow> (Inl e, w'')
                   | (Inr body', w'') \<Rightarrow>
                       if includes_str acceptEncoding ''br'' then
                         compressed (brotliCompressSync Z body' (level options)) ''br'' response w''
                       else if includes_str acceptEncoding ''gzip'' then
                         compressed (gzipSync Z body' (level options)) ''gzip'' response w''
                       else (Inr response, w'')))"

section \<open>src/middleware/cors.ts\<close>








section \<open>Notions the properties are stated with\<close>

text \<open>
  Where a path leads, read as a walk through the directory tree: a location is the
  list of directory names from the filesystem root; an empty segment and \<open>.\<close> stay,
  \<open>..\<close> goes to the parent (the root is its own parent), a name goes down.
\<close>

fun follow :: "string list \<Rightarrow> string list \<Rightarrow> string list" where
  "follow loc [] = loc"
| "follow loc (seg # segs) =
     (if seg = [] \<or> seg = ''.'' then follow loc segs
      else if seg = ''..'' then follow (butlast loc) segs
      else follow (loc @ [seg]) segs)"

text \<open>
  The location of a path: an absolute path is walked from the filesystem root, a
  relative one from the location of the working directory.
\<close>

definition location :: "string \<Rightarrow> string \<Rightarrow> string list" where
  "location wd path =
     (if isAbsolute path then follow [] (splitOn CHR ''/'' path)
      else follow (follow [] (splitOn CHR ''/'' wd)) (splitOn CHR ''/'' path))"

text \<open>
  A URL path escapes the root directory when walking its segments from the location of
  the root ends outside the subtree of the root.
\<close>

definition escapes :: "string \<Rightarrow> string \<Rightarrow> string \<Rightarrow> bool" where
  "escapes wd rootDir urlPath \<longleftrightarrow>
     \<not> prefix (location wd rootDir)
          (follow (location wd rootDir) (splitOn CHR ''/'' urlPath))"

text \<open>
  A path is contained in the root directory when its location lies in the subtree of
  the location of the root.
\<close>

definition contained :: "string \<Rightarrow> string \<Rightarrow> string \<Rightarrow> bool" where
  "contained wd rootDir path \<longleftrightarrow> prefix (location wd rootDir) (location wd path)"

text \<open>The name of a directory entry, as \<open>readdir\<close> returns it.\<close>

definition entryName :: "string \<Rightarrow> bool" where
  "entryName s \<longleftrightarrow> s \<noteq> [] \<and> s \<noteq> ''.'' \<and> s \<noteq> ''..'' \<and> CHR ''/'' \<notin> set s"

text \<open>
  A small filesystem to run the handler on: the root directory \<open>/srv\<close> holds the file
  \<open>a.txt\<close> and the directories \<open>docs\<close> (empty) and \<open>sub\<close>; there is no \<open>index.html\<close>
  anywhere. The process runs in \<open>/home/u\<close>.
\<close>

definition exampleDirectory :: Stats where
  "exampleDirectory = \<lparr>isFile = False, isDirectory = True, size_bytes = 4096, mtime_ms = 1700000000000\<rparr>"

definition exampleFile :: Stats where
  "exampleFile = \<lparr>isFile = True, isDirectory = False, size_bytes = 5, mtime_ms = 1700000000000\<rparr>"

definition examplePlatform :: platform where
  "examplePlatform =
     \<lparr>cwd = ''/home/u'',
      stat = (\<lambda>p. if p = ''/srv'' \<or> p = ''/srv/docs'' \<or> p = ''/srv/sub'' then Inr exampleDirectory
                  else if p = ''/srv/a.txt'' then Inr exampleFile
                  else Inl ENOENT),
      existsSync = (\<lambda>p. p = ''/srv'' \<or> p = ''/srv/docs'' \<or> p = ''/srv/sub'' \<or> p = ''/srv/a.txt''),
      readdir = (\<lambda>p. if p = ''/srv'' then Inr [''a.txt'', ''docs'', ''sub'']
                     else if p = ''/srv/docs'' \<or> p = ''/srv/sub'' then Inr []
                     else Inl ENOENT),
      fileContents = (\<lambda>p. ''hello''),
      extname = (\<lambda>p. if endsWith p ''.txt'' then ''.txt'' else []),
      toUTCString = decOfInt,
      toISOString = decOfInt,
      encodeURIComponent = (\<lambda>s. s),
      localeCompare = (\<lambda>a b. 0),
      formatSize = decOfNat,
      generateDirectoryListing = (\<lambda>path files parent. concat (map entry_name files))\<rparr>"

text \<open>A segment that names a directory entry: not empty, not \<open>.\<close>, not \<open>..\<close>.\<close>

definition stepName :: "string \<Rightarrow> bool" where
  "stepName s \<longleftrightarrow> s \<noteq> [] \<and> s \<noteq> ''.'' \<and> s \<noteq> ''..''"

text \<open>A list of segments that are not empty and hold no slash.\<close>

definition goodLoc :: "string list \<Rightarrow> bool" where
  "goodLoc xs \<longleftrightarrow> (\<forall>s\<in>set xs. s \<noteq> [] \<and> CHR ''/'' \<notin> set s)"

text \<open>The test of \<open>isPathUnderRoot\<close> on the two resolved strings.\<close>

definition under :: "string \<Rightarrow> string \<Rightarrow> bool" where
  "under p r \<longleftrightarrow>
     p = r \<or> (startsWith p r \<and>
       (endsWith r ''/'' \<or> (length r < length p \<and> p ! length r = CHR ''/'')))"

text \<open>The segments of a path that are not empty.\<close>

definition ne_segs :: "string \<Rightarrow> string list" where
  "ne_segs s = filter (\<lambda>t. t \<noteq> []) (splitOn CHR ''/'' s)"

text \<open>A string is slash-reduced when no two slashes are adjacent in it.\<close>

fun noDoubleSlash :: "string \<Rightarrow> bool" where
  "noDoubleSlash [] = True"
| "noDoubleSlash [c] = True"
| "noDoubleSlash (c # d # cs) = (\<not> (c = CHR ''/'' \<and> d = CHR ''/'') \<and> noDoubleSlash (d # cs))"

text \<open>
  The shape every result of \<open>normalizeUrlPath\<close> has: a leading slash, no two adjacent
  slashes, and no trailing slash unless the string is the root \<open>"/"\<close>.
\<close>

definition normalForm :: "string \<Rightarrow> bool" where
  "normalForm s \<longleftrightarrow>
     s \<noteq> [] \<and> hd s = CHR ''/'' \<and> noDoubleSlash s \<and> (s = ''/'' \<or> last s \<noteq> CHR ''/'')"

text \<open>
  The map after a response is stored under key \<open>k\<close>: \<open>set\<close>, then the oldest key is
  deleted when the size exceeds \<open>maxSize\<close>.
\<close>

definition stored_map :: "CacheOptions \<Rightarrow> int \<Rightarrow> string \<Rightarrow> nat \<Rightarrow> (string \<times> CacheEntry) list \<Rightarrow> (string \<times> CacheEntry) list" where
  "stored_map options now k copy m0 =
     (let m = map_set m0 k \<lparr>data = copy, expires = now + maxAge options * 1000\<rparr>
      in if int (length m) > maxSize options then map_delete m (fst (hd m)) else m)"


text \<open>
  What a call of a middleware returns: the response object behind the returned
  reference, as it is in the state the call leaves; \<open>None\<close> when the call throws.
\<close>

definition returned :: "(error + nat) \<times> world \<Rightarrow> Response option" where
  "returned res = (case fst res of Inl e \<Rightarrow> None | Inr r \<Rightarrow> Some (objects (snd res) ! r))"

text \<open>
  Downstream continuations: \<open>respond r\<close> answers with a new response object \<open>r\<close>, as the
  static handler does; \<open>throws\<close> fails, which makes a call of the downstream visible in
  the result of the middleware.
\<close>

definition respond :: "Response \<Rightarrow> nat io" where
  "respond r = alloc r"

definition throws :: "nat io" where
  "throws w = (Inl TypeError, w)"

definition GET :: "string \<Rightarrow> Request" where
  "GET u = \<lparr>method = ''GET'', url = u, req_headers = Map.empty\<rparr>"

text \<open>
  A run of \<open>GET\<close> requests through one cache middleware, each given as the time of the
  request, its URL and the response the downstream handler answers with.
\<close>

fun requests :: "CacheOptions \<Rightarrow> (int \<times> string \<times> Response) list \<Rightarrow> world \<Rightarrow> world" where
  "requests options [] w = w"
| "requests options ((now, u, r) # rest) w =
     requests options rest (snd (cache options now (GET u) (respond r) w))"

text \<open>The bytes a caller reads from a response whose body has not been read.\<close>

definition bytesOf :: "Response \<Rightarrow> string" where
  "bytesOf r = (case body r of None \<Rightarrow> [] | Some bytes \<Rightarrow> bytes)"



section \<open>Idempotence of normalizeUrlPath (C7)\<close>

lemma collapseSlashes_hd:
  "cs \<noteq> [] \<Longrightarrow> collapseSlashes cs \<noteq> [] \<and> hd (collapseSlashes cs) = hd cs"
  by (induction cs rule: collapseSlashes.induct) auto

lemma collapseSlashes_reduced: "noDoubleSlash (collapseSlashes cs)"
proof (induction cs rule: collapseSlashes.induct)
  case (3 c d cs)
  have nz: "collapseSlashes (d # cs) \<noteq> []" and h: "hd (collapseSlashes (d # cs)) = d"
    using collapseSlashes_hd [of "d # cs"] by simp_all
  obtain e es where e: "collapseSlashes (d # cs) = e # es"
    using nz by (cases "collapseSlashes (d # cs)") auto
  with h have "e = d" by simp
  with 3 e show ?case by auto
qed simp_all

lemma collapseSlashes_fixed: "noDoubleSlash cs \<Longrightarrow> collapseSlashes cs = cs"
  by (induction cs rule: collapseSlashes.induct) auto

lemma noDoubleSlash_butlast: "noDoubleSlash cs \<Longrightarrow> noDoubleSlash (butlast cs)"
  by (induction cs rule: noDoubleSlash.induct) (auto split: if_splits)

lemma noDoubleSlash_tl: "noDoubleSlash (c # cs) \<Longrightarrow> noDoubleSlash cs"
  by (cases cs) auto

lemma noDoubleSlash_last2:
  "noDoubleSlash cs \<Longrightarrow> length cs > 1 \<Longrightarrow> last cs = CHR ''/'' \<Longrightarrow> last (butlast cs) \<noteq> CHR ''/''"
proof (induction cs rule: noDoubleSlash.induct)
  case (3 c d cs)
  show ?case
  proof (cases cs)
    case Nil
    with 3 show ?thesis by auto
  next
    case (Cons e es)
    with 3 show ?thesis by (auto split: if_splits)
  qed
qed simp_all

lemma endsWith_slash: "endsWith s ''/'' \<longleftrightarrow> s \<noteq> [] \<and> last s = CHR ''/''"
proof (cases s rule: rev_cases)
  case Nil
  then show ?thesis by (simp add: endsWith_def)
next
  case (snoc ys y)
  then show ?thesis by (auto simp: endsWith_def suffix_def)
qed

lemma stripLeadingSlashes_hd:
  "stripLeadingSlashes s \<noteq> [] \<Longrightarrow> hd (stripLeadingSlashes s) \<noteq> CHR ''/''"
  unfolding stripLeadingSlashes_def using hd_dropWhile [of "\<lambda>c. c = CHR ''/''" s] by simp

lemma slash_cons_reduced:
  "noDoubleSlash t \<Longrightarrow> (t \<noteq> [] \<Longrightarrow> hd t \<noteq> CHR ''/'') \<Longrightarrow> noDoubleSlash (CHR ''/'' # t)"
  by (cases t) auto

lemma normalizeUrlPath_normalForm: "normalForm (normalizeUrlPath p)"
proof (cases "p = [] \<or> p = ''/''")
  case True
  then show ?thesis by (auto simp: normalizeUrlPath_def normalForm_def)
next
  case False
  define t where "t = collapseSlashes (stripLeadingSlashes p)"
  define n where "n = CHR ''/'' # t"
  have t_red: "noDoubleSlash t" by (simp add: t_def collapseSlashes_reduced)
  have t_hd: "t \<noteq> [] \<Longrightarrow> hd t \<noteq> CHR ''/''"
  proof -
    assume "t \<noteq> []"
    then have ne: "stripLeadingSlashes p \<noteq> []" by (auto simp: t_def)
    then have "hd t = hd (stripLeadingSlashes p)"
      by (simp add: t_def collapseSlashes_hd)
    with ne show ?thesis by (simp add: stripLeadingSlashes_hd)
  qed
  have n_red: "noDoubleSlash n" unfolding n_def by (rule slash_cons_reduced [OF t_red t_hd])
  have res: "normalizeUrlPath p = (if length n > 1 \<and> last n = CHR ''/'' then butlast n else n)"
    using False by (simp add: normalizeUrlPath_def Let_def n_def t_def endsWith_slash)
  show ?thesis
  proof (cases "length n > 1 \<and> last n = CHR ''/''")
    case True
    then have tne: "t \<noteq> []" by (auto simp: n_def)
    have b: "butlast n = CHR ''/'' # butlast t" using tne by (simp add: n_def)
    have "last (butlast n) \<noteq> CHR ''/''"
      using noDoubleSlash_last2 [OF n_red] True by simp
    moreover have "noDoubleSlash (butlast n)" by (rule noDoubleSlash_butlast [OF n_red])
    ultimately show ?thesis using True res b by (simp add: normalForm_def)
  next
    case F2: False
    then have "n = ''/'' \<or> last n \<noteq> CHR ''/''"
      by (cases t) (auto simp: n_def)
    with F2 res n_red show ?thesis by (auto simp: normalForm_def n_def)
  qed
qed

lemma normalizeUrlPath_fixed: "normalForm s \<Longrightarrow> normalizeUrlPath s = s"
proof (cases "s = ''/''")
  case True
  then show ?thesis by (simp add: normalizeUrlPath_def)
next
  case False
  assume nf: "normalForm s"
  then obtain t where s: "s = CHR ''/'' # t"
    by (cases s) (auto simp: normalForm_def)
  with False have tne: "t \<noteq> []" by auto
  have red: "noDoubleSlash s" and lst: "last s \<noteq> CHR ''/''"
    using nf False by (auto simp: normalForm_def)
  have thd: "hd t \<noteq> CHR ''/''" using red s tne by (cases t) auto
  have strip: "stripLeadingSlashes s = t"
    using thd tne by (cases t) (auto simp: s stripLeadingSlashes_def)
  have "collapseSlashes t = t"
    using red s by (intro collapseSlashes_fixed) (rule noDoubleSlash_tl, simp)
  then show ?thesis
    using False s lst tne strip by (simp add: normalizeUrlPath_def Let_def endsWith_slash)
qed

text \<open>
  C7. \<open>normalizeUrlPath\<close> is idempotent: for every input string \<open>p\<close>, normalising the
  normalised path gives the normalised path again.
\<close>

theorem normalizeUrlPath_idempotent:
  "normalizeUrlPath (normalizeUrlPath p) = normalizeUrlPath p"
  by (rule normalizeUrlPath_fixed) (rule normalizeUrlPath_normalForm)

section \<open>The ETag of a served file (C8)\<close>

lemma hexDigits_nth_inj:
  "a < 16 \<Longrightarrow> b < 16 \<Longrightarrow> hexDigits ! a = hexDigits ! b \<Longrightarrow> a = b"
proof -
  assume a: "a < 16" and b: "b < 16" and e: "hexDigits ! a = hexDigits ! b"
  have d: "distinct hexDigits" by (simp add: hexDigits_def)
  have l: "length hexDigits = 16" by (simp add: hexDigits_def)
  from d a b e l show ?thesis by (simp add: nth_eq_iff_index_eq)
qed

lemma hexDigits_nth_in: "a < 16 \<Longrightarrow> hexDigits ! a \<in> set hexDigits"
proof -
  assume "a < 16"
  moreover have "length hexDigits = 16" by (simp add: hexDigits_def)
  ultimately show ?thesis by (intro nth_mem) simp
qed

lemma hexOfNat_set: "set (hexOfNat n) \<subseteq> set hexDigits"
proof (induction n rule: hexOfNat.induct)
  case (1 n)
  show ?case
  proof (cases "n < 16")
    case True
    then show ?thesis using hexDigits_nth_in [of n] by (subst hexOfNat.simps) simp
  next
    case False
    have "n mod 16 < 16" by simp
    then have "hexDigits ! (n mod 16) \<in> set hexDigits" by (rule hexDigits_nth_in)
    with False 1 show ?thesis by (subst hexOfNat.simps) simp
  qed
qed

lemma hexOfNat_nonempty: "hexOfNat n \<noteq> []"
  by (subst hexOfNat.simps) simp

lemma hexOfNat_length: "16 \<le> n \<Longrightarrow> 2 \<le> length (hexOfNat n)"
proof -
  assume "16 \<le> n"
  then have "hexOfNat n = hexOfNat (n div 16) @ [hexDigits ! (n mod 16)]"
    by (subst hexOfNat.simps) simp
  moreover have "1 \<le> length (hexOfNat (n div 16))"
    using hexOfNat_nonempty [of "n div 16"] by (cases "hexOfNat (n div 16)") simp_all
  ultimately show ?thesis by simp
qed

lemma hexOfNat_inj: "hexOfNat n = hexOfNat m \<Longrightarrow> n = m"
proof (induction n arbitrary: m rule: hexOfNat.induct)
  case (1 n)
  show ?case
  proof (cases "n < 16")
    case n: True
    then have hn: "hexOfNat n = [hexDigits ! n]" by (subst hexOfNat.simps) simp
    show ?thesis
    proof (cases "m < 16")
      case True
      then have "hexOfNat m = [hexDigits ! m]" by (subst hexOfNat.simps) simp
      with hn "1.prems" have "hexDigits ! n = hexDigits ! m" by simp
      with n True show ?thesis by (rule hexDigits_nth_inj)
    next
      case False
      then have "2 \<le> length (hexOfNat m)" by (simp add: hexOfNat_length)
      with hn "1.prems" show ?thesis by simp
    qed
  next
    case n: False
    then have hn: "hexOfNat n = hexOfNat (n div 16) @ [hexDigits ! (n mod 16)]"
      by (subst hexOfNat.simps) simp
    show ?thesis
    proof (cases "m < 16")
      case True
      then have "hexOfNat m = [hexDigits ! m]" by (subst hexOfNat.simps) simp
      moreover have "2 \<le> length (hexOfNat n)" using n by (simp add: hexOfNat_length)
      ultimately show ?thesis using "1.prems" by simp
    next
      case False
      then have hm: "hexOfNat m = hexOfNat (m div 16) @ [hexDigits ! (m mod 16)]"
        by (subst hexOfNat.simps) simp
      from hn hm "1.prems" have e1: "hexOfNat (n div 16) = hexOfNat (m div 16)"
        and e2: "hexDigits ! (n mod 16) = hexDigits ! (m mod 16)" by simp_all
      from "1.IH" [OF n e1] have d: "n div 16 = m div 16" .
      have "n mod 16 = m mod 16" using e2 by (intro hexDigits_nth_inj) simp_all
      with d show ?thesis by (metis div_mult_mod_eq)
    qed
  qed
qed

lemma hexOfNat_no_minus: "CHR ''-'' \<notin> set (hexOfNat n)"
  using hexOfNat_set [of n] by (auto simp: hexDigits_def)

lemma hexOfInt_inj: "hexOfInt i = hexOfInt j \<Longrightarrow> i = j"
proof -
  assume e: "hexOfInt i = hexOfInt j"
  have hd_neg: "\<And>k. k < 0 \<Longrightarrow> hd (hexOfInt k) = CHR ''-''" by (simp add: hexOfInt_def)
  have hd_pos: "\<And>k. \<not> k < 0 \<Longrightarrow> hd (hexOfInt k) \<noteq> CHR ''-''"
  proof -
    fix k :: int assume "\<not> k < 0"
    then have "hexOfInt k = hexOfNat (nat k)" by (simp add: hexOfInt_def)
    moreover have "hd (hexOfNat (nat k)) \<in> set (hexOfNat (nat k))"
      using hexOfNat_nonempty by simp
    ultimately show "hd (hexOfInt k) \<noteq> CHR ''-''" using hexOfNat_no_minus [of "nat k"] by metis
  qed
  show ?thesis
  proof (cases "i < 0")
    case True
    then have "j < 0" using e hd_neg [of i] hd_pos [of j] by metis
    with True e have "nat (- i) = nat (- j)" by (simp add: hexOfInt_def hexOfNat_inj)
    with True \<open>j < 0\<close> show ?thesis by simp
  next
    case False
    then have "\<not> j < 0" using e hd_neg [of j] hd_pos [of i] by metis
    with False e have "nat i = nat j" by (simp add: hexOfInt_def hexOfNat_inj)
    with False \<open>\<not> j < 0\<close> show ?thesis by simp
  qed
qed

lemma split_at_first:
  "c \<notin> set a \<Longrightarrow> c \<notin> set b \<Longrightarrow> a @ c # x = b @ c # y \<Longrightarrow> a = b \<and> x = y"
proof (induction a arbitrary: b)
  case Nil
  then show ?case by (cases b) auto
next
  case (Cons d a)
  then show ?case by (cases b) auto
qed

lemma etag_inj:
  "etag s = etag t \<longleftrightarrow> size_bytes s = size_bytes t \<and> mtime_ms s = mtime_ms t"
proof
  assume "etag s = etag t"
  then have "hexOfNat (size_bytes s) @ CHR ''-'' # (hexOfInt (mtime_ms s) @ [CHR 0x22])
           = hexOfNat (size_bytes t) @ CHR ''-'' # (hexOfInt (mtime_ms t) @ [CHR 0x22])"
    by (simp add: etag_def)
  then have "hexOfNat (size_bytes s) = hexOfNat (size_bytes t)
      \<and> hexOfInt (mtime_ms s) @ [CHR 0x22] = hexOfInt (mtime_ms t) @ [CHR 0x22]"
    by (intro split_at_first) (simp_all add: hexOfNat_no_minus)
  then show "size_bytes s = size_bytes t \<and> mtime_ms s = mtime_ms t"
    by (auto dest: hexOfNat_inj hexOfInt_inj)
next
  assume "size_bytes s = size_bytes t \<and> mtime_ms s = mtime_ms t"
  then show "etag s = etag t" by (simp add: etag_def)
qed

lemma serveFile_etag:
  "headers_get (headers (fst (serveFile P filePath stats m))) ''ETag'' = Some (etag stats)"
  by (simp add: serveFile_def Let_def headers_get_def headers_set_def new_Response_def
      toLowerCase_def toLowerChar_def)

text \<open>
  C8. The \<open>ETag\<close> header of a served file is a weak validator (it starts with \<open>W/\<close>)
  and is determined by, and determines, the pair of the file's size and modification
  time: two served files carry the same \<open>ETag\<close> exactly when they agree on both.
\<close>

theorem serveFile_etag_weak_injective:
  "(headers_get (headers (fst (serveFile P f1 s1 m1))) ''ETag''
      = headers_get (headers (fst (serveFile P f2 s2 m2))) ''ETag''
    \<longleftrightarrow> size_bytes s1 = size_bytes s2 \<and> mtime_ms s1 = mtime_ms s2)
   \<and> (\<exists>t. headers_get (headers (fst (serveFile P f1 s1 m1))) ''ETag'' = Some (''W/'' @ t))"
  by (simp add: serveFile_etag etag_inj) (simp add: etag_def)

section \<open>Header names\<close>

lemma toLowerCase_names:
  "toLowerCase ''Accept-Encoding'' = ''accept-encoding''"
  "toLowerCase ''Content-Type'' = ''content-type''"
  "toLowerCase ''Content-Encoding'' = ''content-encoding''"
  "toLowerCase ''Content-Length'' = ''content-length''"
  "toLowerCase ''Origin'' = ''origin''"
  "toLowerCase ''Access-Control-Allow-Origin'' = ''access-control-allow-origin''"
  "toLowerCase ''Access-Control-Allow-Credentials'' = ''access-control-allow-credentials''"
  "toLowerCase ''Access-Control-Expose-Headers'' = ''access-control-expose-headers''"
  "toLowerCase ''Access-Control-Allow-Methods'' = ''access-control-allow-methods''"
  "toLowerCase ''Access-Control-Allow-Headers'' = ''access-control-allow-headers''"
  "toLowerCase ''Access-Control-Request-Headers'' = ''access-control-request-headers''"
  "toLowerCase ''Access-Control-Max-Age'' = ''access-control-max-age''"
  by (simp_all add: toLowerCase_def toLowerChar_def)

section \<open>The compression middleware (C4)\<close>

lemma alloc_result:
  "alloc r w = (Inr (length (objects w)), w\<lparr>objects := objects w @ [r]\<rparr>)"
  by (simp add: alloc_def)

lemma compressed_headers:
  "compressed bytes enc response w = (Inr r, w') \<Longrightarrow>
     headers_get (headers (objects w' ! r)) ''Content-Encoding'' = Some enc \<and>
     headers_get (headers (objects w' ! r)) ''Content-Length'' = None \<and>
     body (objects w' ! r) = Some bytes \<and> \<not> bodyUsed (objects w' ! r) \<and>
     status (objects w' ! r) = status (objects w ! response)"
  by (auto simp: compressed_def alloc_def Let_def new_Response_def headers_get_def
      headers_set_def headers_delete_def toLowerCase_names)

text \<open>
  The first half of C4 holds: a compressible downstream response whose body has not
  been read is answered, for a request that advertises \<open>br\<close> (with or without \<open>gzip\<close>),
  by a new response with the Brotli-compressed bytes, \<open>Content-Encoding: br\<close> and no
  \<open>Content-Length\<close>.
\<close>

lemma compression_brotli:
  assumes nxt: "next w = (Inr response, w')"
    and ctype: "list_ex (\<lambda>t. includes_str
                (headers_get_or_empty (headers (objects w' ! response)) ''Content-Type'') t)
                (types options)"
    and bdy: "body (objects w' ! response) = Some bytes"
    and unread: "\<not> bodyUsed (objects w' ! response)"
    and br: "includes_str (headers_get_or_empty (req_headers req) ''Accept-Encoding'') ''br''"
  shows "\<exists>r w''. compression Z options req next w = (Inr r, w'') \<and>
           headers_get (headers (objects w'' ! r)) ''Content-Encoding'' = Some ''br'' \<and>
           headers_get (headers (objects w'' ! r)) ''Content-Length'' = None \<and>
           body (objects w'' ! r) = Some (brotliCompressSync Z bytes (level options)) \<and>
           \<not> bodyUsed (objects w'' ! r)"
proof -
  define w1 where
    "w1 = w'\<lparr>objects := (objects w')[response := (objects w' ! response)\<lparr>bodyUsed := True\<rparr>]\<rparr>"
  have ab: "arrayBuffer response w' = (Inr bytes, w1)"
    using bdy unread by (simp add: arrayBuffer_def Let_def w1_def)
  obtain r w'' where c:
    "compressed (brotliCompressSync Z bytes (level options)) ''br'' response w1 = (Inr r, w'')"
    by (simp add: compressed_def alloc_def Let_def)
  have "compression Z options req next w = (Inr r, w'')"
    using nxt ctype br ab c by (simp add: compression_def Let_def)
  with compressed_headers [OF c] show ?thesis by blast
qed

text \<open>
  The second half fails: the middleware reads the body of a compressible response
  before it looks at \<open>Accept-Encoding\<close>, and when neither \<open>br\<close> nor \<open>gzip\<close> is advertised
  it returns the very object it has read.
\<close>

lemma compression_identity_reads_body:
  assumes nxt: "next w = (Inr response, w')"
    and ctype: "list_ex (\<lambda>t. includes_str
                (headers_get_or_empty (headers (objects w' ! response)) ''Content-Type'') t)
                (types options)"
    and bdy: "body (objects w' ! response) = Some bytes"
    and unread: "\<not> bodyUsed (objects w' ! response)"
    and valid: "response < length (objects w')"
    and nobr: "\<not> includes_str (headers_get_or_empty (req_headers req) ''Accept-Encoding'') ''br''"
    and nogz: "\<not> includes_str (headers_get_or_empty (req_headers req) ''Accept-Encoding'') ''gzip''"
  shows "\<exists>w''. compression Z options req next w = (Inr response, w'') \<and>
           bodyUsed (objects w'' ! response) \<and>
           fst (arrayBuffer response w'') = Inl TypeError"
proof -
  define w1 where
    "w1 = w'\<lparr>objects := (objects w')[response := (objects w' ! response)\<lparr>bodyUsed := True\<rparr>]\<rparr>"
  have ab: "arrayBuffer response w' = (Inr bytes, w1)"
    using bdy unread by (simp add: arrayBuffer_def Let_def w1_def)
  have res: "compression Z options req next w = (Inr response, w1)"
    using nxt ctype nobr nogz ab by (simp add: compression_def Let_def)
  have o: "objects w1 ! response = (objects w' ! response)\<lparr>bodyUsed := True\<rparr>"
    using valid by (simp add: w1_def)
  have "fst (arrayBuffer response w1) = Inl TypeError"
    using o bdy by (simp add: arrayBuffer_def Let_def)
  with res o show ?thesis by simp
qed

text \<open>
  C4, at a request without \<open>Accept-Encoding\<close> for a \<open>text/html\<close> response of the
  downstream handler: the middleware returns the downstream object with its status and
  headers, but with the body already read, so that the caller's read fails.
\<close>

theorem compression_without_accept_encoding:
  "compression Z defaultCompressionOptions
      \<lparr>method = ''GET'', url = ''http://localhost:3000/index.html'', req_headers = Map.empty\<rparr>
      (alloc (new_Response (Some ''<h1>hi</h1>'') 200 ''OK''
                (headers_set Map.empty ''Content-Type'' ''text/html'')))
      \<lparr>objects = [], memoryCache = []\<rparr>
   = (Inr 0, \<lparr>objects = [\<lparr>status = 200, statusText = ''OK'',
                    headers = headers_set Map.empty ''Content-Type'' ''text/html'',
                    body = Some ''<h1>hi</h1>'', bodyUsed = True\<rparr>], memoryCache = []\<rparr>)
   \<and> fst (arrayBuffer 0 \<lparr>objects = [\<lparr>status = 200, statusText = ''OK'',
                    headers = headers_set Map.empty ''Content-Type'' ''text/html'',
                    body = Some ''<h1>hi</h1>'', bodyUsed = True\<rparr>], memoryCache = []\<rparr>)
       = Inl TypeError"
  by (simp add: compression_def alloc_def new_Response_def headers_get_or_empty_def headers_get_def
      headers_set_def defaultCompressionOptions_def arrayBuffer_def Let_def toLowerCase_names)

section \<open>The CORS middleware (C10)\<close>








section \<open>The cache middleware: one request\<close>

lemma map_get_absent: "k \<notin> fst ` set m \<Longrightarrow> map_get m k = None"
  by (simp add: map_get_def map_of_eq_None_iff)



lemma map_set_absent: "k \<notin> fst ` set m \<Longrightarrow> map_set m k v = m @ [(k, v)]"
  by (simp add: map_set_def)

lemma map_set_present_keys: "k \<in> fst ` set m \<Longrightarrow> map fst (map_set m k v) = map fst m"
proof -
  have "map fst (map (\<lambda>e. if fst e = k then (k, v) else e) m) = map fst m"
    by (induction m) auto
  then show "k \<in> fst ` set m \<Longrightarrow> ?thesis" by (simp add: map_set_def)
qed

lemma map_delete_absent: "k \<notin> fst ` set (map_delete m k)"
  by (auto simp: map_delete_def)


lemma map_set_after_delete: "map_set (map_delete m k) k v = map_delete m k @ [(k, v)]"
  by (rule map_set_absent) (rule map_delete_absent)

lemma hit_step:
  assumes "method req = ''GET''" and "0 < maxAge options"
    and "map_get (memoryCache w) (url req) = Some e" and "now < expires e"
    and "\<not> bodyUsed (objects w ! data e)"
  shows "cache options now req next w =
           (Inr (length (objects w)),
            w\<lparr>memoryCache := map_delete (memoryCache w) (url req) @ [(url req, e)],
              objects := objects w @ [objects w ! data e]\<rparr>)"
  using assms
  by (simp add: cache_def Let_def clone_def alloc_def map_set_after_delete)

lemma miss_step:
  assumes "method req = ''GET''" and "0 < maxAge options"
    and "url req \<notin> fst ` set (memoryCache w)"
    and "ok r" and "\<not> bodyUsed r"
  shows "cache options now req (respond r) w =
           (Inr (length (objects w)),
            w\<lparr>objects := objects w @ [r, r],
              memoryCache :=
                (let m = memoryCache w @ [(url req, \<lparr>data = Suc (length (objects w)),
                                                      expires = now + maxAge options * 1000\<rparr>)]
                 in if int (length m) > maxSize options then map_delete m (fst (hd m)) else m)\<rparr>)"
  using assms
  by (auto simp: cache_def cacheMiss_def storeResponse_def respond_def Let_def clone_def alloc_def
      map_get_absent map_set_absent nth_append split: list.splits)


lemma GET_simps [simp]: "method (GET u) = ''GET''" "url (GET u) = u"
  by (simp_all add: GET_def)

section \<open>Eviction and independent bodies (C5)\<close>

lemma cache_three_misses:
  assumes dist: "A \<noteq> B" "A \<noteq> C" "B \<noteq> C"
    and oks: "ok rA" "ok rB" "ok rC"
    and unread: "\<not> bodyUsed rA" "\<not> bodyUsed rB" "\<not> bodyUsed rC"
  shows "requests \<lparr>maxAge = 60, maxSize = 2\<rparr> [(tA, A, rA), (tB, B, rB), (tC, C, rC)]
           \<lparr>objects = objs, memoryCache = []\<rparr>
         = \<lparr>objects = objs @ [rA, rA, rB, rB, rC, rC],
            memoryCache = [(B, \<lparr>data = length objs + 3, expires = tB + 60000\<rparr>),
                           (C, \<lparr>data = length objs + 5, expires = tC + 60000\<rparr>)]\<rparr>"
proof -
  let ?o = "\<lparr>maxAge = 60, maxSize = 2\<rparr>"
  let ?w0 = "\<lparr>objects = objs, memoryCache = []\<rparr>"
  let ?w1 = "\<lparr>objects = objs @ [rA, rA],
              memoryCache = [(A, \<lparr>data = length objs + 1, expires = tA + 60000\<rparr>)]\<rparr>"
  let ?w2 = "\<lparr>objects = objs @ [rA, rA, rB, rB],
              memoryCache = [(A, \<lparr>data = length objs + 1, expires = tA + 60000\<rparr>),
                             (B, \<lparr>data = length objs + 3, expires = tB + 60000\<rparr>)]\<rparr>"
  let ?w3 = "\<lparr>objects = objs @ [rA, rA, rB, rB, rC, rC],
              memoryCache = [(B, \<lparr>data = length objs + 3, expires = tB + 60000\<rparr>),
                             (C, \<lparr>data = length objs + 5, expires = tC + 60000\<rparr>)]\<rparr>"
  have s1: "snd (cache ?o tA (GET A) (respond rA) ?w0) = ?w1"
    using oks unread by (subst miss_step) simp_all
  have s2: "snd (cache ?o tB (GET B) (respond rB) ?w1) = ?w2"
    using oks unread dist by (subst miss_step) simp_all
  have s3: "snd (cache ?o tC (GET C) (respond rC) ?w2) = ?w3"
    using oks unread dist by (subst miss_step) (simp_all add: map_delete_def)
  show ?thesis by (simp only: requests.simps s1 s2 s3)
qed


lemma arrayBuffer_unread:
  "r < length (objects w) \<Longrightarrow> \<not> bodyUsed (objects w ! r) \<Longrightarrow>
     fst (arrayBuffer r w) = Inr (bytesOf (objects w ! r)) \<and>
     length (objects (snd (arrayBuffer r w))) = length (objects w) \<and>
     (\<forall>i. i \<noteq> r \<longrightarrow> objects (snd (arrayBuffer r w)) ! i = objects w ! i)"
  by (auto simp: arrayBuffer_def Let_def bytesOf_def split: option.splits)

text \<open>
  C5. With \<open>maxSize = 2\<close> and a TTL of 60 seconds, on an empty cache, three \<open>GET\<close>
  requests for distinct URLs \<open>A\<close>, \<open>B\<close>, \<open>C\<close> with successful downstream responses
  leave exactly \<open>B\<close> and \<open>C\<close> in the map. In that state a \<open>GET A\<close> calls the
  downstream (its failure comes out), while \<open>GET B\<close> and \<open>GET C\<close>, before their expiry,
  return the stored responses whatever the downstream is. Two hits on \<open>B\<close> return two
  distinct objects, and reading the body of the first leaves the body of the second
  readable in full.
\<close>

theorem cache_lru_scenario:
  assumes dist: "A \<noteq> B" "A \<noteq> C" "B \<noteq> C"
    and oks: "ok rA" "ok rB" "ok rC"
    and unread: "\<not> bodyUsed rA" "\<not> bodyUsed rB" "\<not> bodyUsed rC"
    and fresh: "t < tB + 60000" "t < tC + 60000"
  shows "let options = \<lparr>maxAge = 60, maxSize = 2\<rparr>;
             w3 = requests options [(tA, A, rA), (tB, B, rB), (tC, C, rC)]
                    \<lparr>objects = objs, memoryCache = []\<rparr>;
             n = length (objects w3);
             hit1 = cache options t (GET B) throws w3;
             hit2 = cache options t (GET B) throws (snd hit1)
         in map fst (memoryCache w3) = [B, C]
          \<and> cache options t (GET A) throws w3 = (Inl TypeError, w3)
          \<and> (\<forall>next. cache options t (GET B) next w3 = hit1)
          \<and> returned hit1 = Some rB
          \<and> (\<forall>next. cache options t (GET C) next w3 = cache options t (GET C) throws w3)
          \<and> returned (cache options t (GET C) throws w3) = Some rC
          \<and> fst hit1 = Inr n \<and> fst hit2 = Inr (Suc n)
          \<and> fst (arrayBuffer n (snd hit2)) = Inr (bytesOf rB)
          \<and> fst (arrayBuffer (Suc n) (snd (arrayBuffer n (snd hit2)))) = Inr (bytesOf rB)"
proof -
  let ?o = "\<lparr>maxAge = 60, maxSize = 2\<rparr>"
  let ?eB = "\<lparr>data = length objs + 3, expires = tB + 60000\<rparr>"
  let ?eC = "\<lparr>data = length objs + 5, expires = tC + 60000\<rparr>"
  let ?objs3 = "objs @ [rA, rA, rB, rB, rC, rC]"
  let ?w3 = "\<lparr>objects = ?objs3, memoryCache = [(B, ?eB), (C, ?eC)]\<rparr>"
  let ?w4 = "\<lparr>objects = ?objs3 @ [rB], memoryCache = [(C, ?eC), (B, ?eB)]\<rparr>"
  let ?w5 = "\<lparr>objects = ?objs3 @ [rB, rB], memoryCache = [(C, ?eC), (B, ?eB)]\<rparr>"
  let ?n = "length ?objs3"
  have w3: "requests ?o [(tA, A, rA), (tB, B, rB), (tC, C, rC)] \<lparr>objects = objs, memoryCache = []\<rparr> = ?w3"
    by (rule cache_three_misses [OF dist oks unread])
  have atB: "?objs3 ! (length objs + 3) = rB" and atC: "?objs3 ! (length objs + 5) = rC"
    by (simp_all add: nth_append)
  have missA: "cache ?o t (GET A) throws ?w3 = (Inl TypeError, ?w3)"
    using dist by (simp add: cache_def cacheMiss_def throws_def map_get_def)
  have hitB: "cache ?o t (GET B) next ?w3 = (Inr ?n, ?w4)" for "next"
    using dist fresh unread atB
    by (subst hit_step [where e = ?eB]) (simp_all add: map_get_def map_delete_def)
  have hitC: "cache ?o t (GET C) next ?w3
                = (Inr ?n, \<lparr>objects = ?objs3 @ [rC], memoryCache = [(B, ?eB), (C, ?eC)]\<rparr>)" for "next"
    using dist fresh unread atC
    by (subst hit_step [where e = ?eC]) (simp_all add: map_get_def map_delete_def)
  have atB4: "(?objs3 @ [rB]) ! (length objs + 3) = rB"
    by (simp add: nth_append)
  have hitB2: "cache ?o t (GET B) next ?w4 = (Inr (Suc ?n), ?w5)" for "next"
    using dist fresh unread atB4
    by (subst hit_step [where e = ?eB]) (simp_all add: map_get_def map_delete_def)
  have retB: "returned (Inr ?n, ?w4) = Some rB"
    by (simp add: returned_def nth_append)
  have retC: "returned (Inr ?n, \<lparr>objects = ?objs3 @ [rC], memoryCache = [(B, ?eB), (C, ?eC)]\<rparr>) = Some rC"
    by (simp add: returned_def nth_append)
  have o5n: "objects ?w5 ! ?n = rB" and o5s: "objects ?w5 ! Suc ?n = rB"
    by (simp_all add: nth_append)
  have len5: "?n < length (objects ?w5)" "Suc ?n < length (objects ?w5)" by simp_all
  have read1: "fst (arrayBuffer ?n ?w5) = Inr (bytesOf rB)"
    and keep: "length (objects (snd (arrayBuffer ?n ?w5))) = length (objects ?w5)"
    and other: "objects (snd (arrayBuffer ?n ?w5)) ! Suc ?n = objects ?w5 ! Suc ?n"
    using arrayBuffer_unread [OF len5(1)] unread o5n by simp_all
  have read2: "fst (arrayBuffer (Suc ?n) (snd (arrayBuffer ?n ?w5))) = Inr (bytesOf rB)"
    using arrayBuffer_unread [of "Suc ?n" "snd (arrayBuffer ?n ?w5)"] keep other o5s unread len5
    by simp
  show ?thesis
    unfolding Let_def w3 hitB hitC hitB2 snd_conv fst_conv
    using missA retB retC read1 read2 by simp
qed

theorem cache_lru_scenario_witness:
  "let options = \<lparr>maxAge = 60, maxSize = 2\<rparr>;
       w3 = requests options
              [(0, ''http://localhost:3000/a'', new_Response (Some ''A'') 200 ''OK'' Map.empty),
               (1000, ''http://localhost:3000/b'', new_Response (Some ''B'') 200 ''OK'' Map.empty),
               (1200, ''http://localhost:3000/c'', new_Response (Some ''C'') 200 ''OK'' Map.empty)]
              \<lparr>objects = [], memoryCache = []\<rparr>;
       n = length (objects w3);
       hit1 = cache options 1500 (GET ''http://localhost:3000/b'') throws w3;
       hit2 = cache options 1500 (GET ''http://localhost:3000/b'') throws (snd hit1)
   in map fst (memoryCache w3) = [''http://localhost:3000/b'', ''http://localhost:3000/c'']
    \<and> cache options 1500 (GET ''http://localhost:3000/a'') throws w3 = (Inl TypeError, w3)
    \<and> returned hit1 = Some (new_Response (Some ''B'') 200 ''OK'' Map.empty)
    \<and> returned (cache options 1500 (GET ''http://localhost:3000/c'') throws w3)
         = Some (new_Response (Some ''C'') 200 ''OK'' Map.empty)
    \<and> fst hit1 = Inr n \<and> fst hit2 = Inr (Suc n)
    \<and> fst (arrayBuffer (Suc n) (snd (arrayBuffer n (snd hit2))))
         = Inr (bytesOf (new_Response (Some ''B'') 200 ''OK'' Map.empty))"
proof -
  have d: "''http://localhost:3000/a'' \<noteq> ''http://localhost:3000/b''"
      "''http://localhost:3000/a'' \<noteq> ''http://localhost:3000/c''"
      "''http://localhost:3000/b'' \<noteq> ''http://localhost:3000/c''"
    by simp_all
  have o: "ok (new_Response (Some ''A'') 200 ''OK'' Map.empty)"
      "ok (new_Response (Some ''B'') 200 ''OK'' Map.empty)"
      "ok (new_Response (Some ''C'') 200 ''OK'' Map.empty)"
    by (simp_all add: ok_def new_Response_def)
  have u: "\<not> bodyUsed (new_Response (Some ''A'') 200 ''OK'' Map.empty)"
      "\<not> bodyUsed (new_Response (Some ''B'') 200 ''OK'' Map.empty)"
      "\<not> bodyUsed (new_Response (Some ''C'') 200 ''OK'' Map.empty)"
    by (simp_all add: new_Response_def)
  have f: "(1500 :: int) < 1000 + 60000" "(1500 :: int) < 1200 + 60000" by simp_all
  show ?thesis
    using cache_lru_scenario [OF d o u f, of 0 "[]"] unfolding Let_def by blast
qed


lemma cache_passthrough:
  "method req \<noteq> ''GET'' \<or> maxAge options \<le> 0 \<Longrightarrow> cache options now req next w = next w"
  by (auto simp: cache_def)




text \<open>
  The order of the later requests matters: a \<open>GET A\<close> issued in that state is a miss
  that stores \<open>A\<close> again and evicts \<open>B\<close>, the oldest key.
\<close>

lemma cache_refetch_evicts_oldest:
  assumes dist: "A \<noteq> B" "A \<noteq> C" "B \<noteq> C"
    and oks: "ok rA" "ok rB" "ok rC"
    and unread: "\<not> bodyUsed rA" "\<not> bodyUsed rB" "\<not> bodyUsed rC"
  shows "map fst (memoryCache (requests \<lparr>maxAge = 60, maxSize = 2\<rparr>
           [(tA, A, rA), (tB, B, rB), (tC, C, rC), (t, A, rA)]
           \<lparr>objects = objs, memoryCache = []\<rparr>)) = [C, A]"
proof -
  let ?o = "\<lparr>maxAge = 60, maxSize = 2\<rparr>"
  let ?w3 = "\<lparr>objects = objs @ [rA, rA, rB, rB, rC, rC],
              memoryCache = [(B, \<lparr>data = length objs + 3, expires = tB + 60000\<rparr>),
                             (C, \<lparr>data = length objs + 5, expires = tC + 60000\<rparr>)]\<rparr>"
  have three: "requests ?o [(tA, A, rA), (tB, B, rB), (tC, C, rC)] \<lparr>objects = objs, memoryCache = []\<rparr> = ?w3"
    by (rule cache_three_misses [OF dist oks unread])
  have split: "requests ?o [(tA, A, rA), (tB, B, rB), (tC, C, rC), (t, A, rA)] w
      = requests ?o [(t, A, rA)] (requests ?o [(tA, A, rA), (tB, B, rB), (tC, C, rC)] w)" for w
    by simp
  have "map fst (memoryCache (snd (cache ?o t (GET A) (respond rA) ?w3))) = [C, A]"
    using oks unread dist by (subst miss_step) (simp_all add: map_delete_def)
  then show ?thesis unfolding split three by simp
qed

section \<open>Storing a response\<close>


lemma storeResponse_cases:
  "storeResponse options now k response w = (res, w') \<Longrightarrow>
     (res = Inl TypeError \<and> w' = w \<and> bodyUsed (objects w ! response)) \<or>
     (res = Inr response \<and> \<not> bodyUsed (objects w ! response) \<and>
      memoryCache w' =
        (let m = map_set (memoryCache w) k
                   \<lparr>data = length (objects w), expires = now + maxAge options * 1000\<rparr>
         in if int (length m) > maxSize options then map_delete m (fst (hd m)) else m))"
  by (auto simp: storeResponse_def clone_def alloc_def Let_def map_delete_def split: if_splits list.splits prod.splits sum.splits)

lemma cacheMiss_effect:
  assumes down: "next w = (dres, w1)" and untouched: "memoryCache w1 = memoryCache w"
    and step: "cacheMiss options now k next w = (res, w')"
  shows "(\<not> (\<exists>response. dres = Inr response \<and> ok (objects w1 ! response)) \<longrightarrow>
            memoryCache w' = memoryCache w)
       \<and> (memoryCache w' = memoryCache w \<or>
          ((\<exists>response. dres = Inr response \<and> ok (objects w1 ! response)) \<and>
           memoryCache w' = stored_map options now k (length (objects w1)) (memoryCache w)))"
proof (cases dres)
  case (Inl e)
  with down step untouched show ?thesis by (auto simp: cacheMiss_def)
next
  case (Inr response)
  show ?thesis
  proof (cases "ok (objects w1 ! response)")
    case False
    with Inr down step untouched show ?thesis by (auto simp: cacheMiss_def)
  next
    case True
    with Inr down step have "storeResponse options now k response w1 = (res, w')"
      by (simp add: cacheMiss_def)
    from storeResponse_cases [OF this] True Inr untouched show ?thesis
      by (auto simp: stored_map_def)
  qed
qed

lemma map_set_length:
  "length (map_set m k v) = (if k \<in> fst ` set m then length m else Suc (length m))"
  by (simp add: map_set_def)




lemma stored_map_in_place:
  assumes "k \<in> fst ` set m" and "int (length m) \<le> maxSize options"
  shows "map fst (stored_map options now k c m) = map fst m"
  using assms by (simp add: stored_map_def Let_def map_set_length map_set_present_keys)











section \<open>The cache key (C3)\<close>





section \<open>One map for every cache middleware (C9)\<close>

lemma map_get_append_new: "k \<notin> fst ` set m \<Longrightarrow> map_get (m @ [(k, v)]) k = Some v"
  by (induction m) (auto simp: map_get_def)

text \<open>
  C9. Every middleware made by \<open>cache\<close> works on the one \<open>memoryCache\<close>: a response
  stored by a middleware with options \<open>options1\<close> is returned as a hit, without the
  downstream, by a middleware with any other options \<open>options2\<close> for a \<open>GET\<close> of the
  same URL, provided \<open>options2\<close> has a positive TTL and the entry has not expired; the
  expiry is the one fixed by the storing middleware.
\<close>

theorem cache_instances_share_map:
  assumes get: "method req1 = ''GET''" "method req2 = ''GET''" and same: "url req2 = url req1"
    and ttl: "0 < maxAge options1" "0 < maxAge options2"
    and resp: "ok r" "\<not> bodyUsed r"
    and miss: "url req1 \<notin> fst ` set (memoryCache w)"
    and room: "int (length (memoryCache w)) < maxSize options1"
    and fresh: "now2 < now1 + maxAge options1 * 1000"
  shows "let w1 = snd (cache options1 now1 req1 (respond r) w)
         in map_get (memoryCache w1) (url req1)
              = Some \<lparr>data = Suc (length (objects w)), expires = now1 + maxAge options1 * 1000\<rparr>
          \<and> (\<forall>next. cache options2 now2 req2 next w1 = cache options2 now2 req2 throws w1)
          \<and> returned (cache options2 now2 req2 throws w1) = Some r"
proof -
  let ?e = "\<lparr>data = Suc (length (objects w)), expires = now1 + maxAge options1 * 1000\<rparr>"
  let ?w1 = "w\<lparr>objects := objects w @ [r, r], memoryCache := memoryCache w @ [(url req1, ?e)]\<rparr>"
  have w1: "snd (cache options1 now1 req1 (respond r) w) = ?w1"
    using get ttl resp miss room by (subst miss_step) (simp_all add: Let_def)
  have lookup: "map_get (memoryCache ?w1) (url req2) = Some ?e"
    using miss same by (simp add: map_get_append_new)
  have stored: "objects ?w1 ! data ?e = r" by (simp add: nth_append)
  have hit: "cache options2 now2 req2 next ?w1 =
           (Inr (length (objects ?w1)),
            ?w1\<lparr>memoryCache := map_delete (memoryCache ?w1) (url req2) @ [(url req2, ?e)],
              objects := objects ?w1 @ [objects ?w1 ! data ?e]\<rparr>)" for "next"
    using get ttl fresh resp stored by (intro hit_step [OF _ _ lookup]) simp_all
  have ret: "returned (cache options2 now2 req2 throws ?w1) = Some r"
    unfolding hit using stored by (simp add: returned_def nth_append)
  show ?thesis
    unfolding Let_def w1 using lookup same hit ret by simp
qed

theorem cache_instances_share_map_witness:
  "let w1 = snd (cache \<lparr>maxAge = 60, maxSize = 2\<rparr> 0 (GET ''http://localhost:3000/a'')
                  (respond (new_Response (Some ''hello'') 200 ''OK'' Map.empty))
                  \<lparr>objects = [], memoryCache = []\<rparr>)
   in map_get (memoryCache w1) ''http://localhost:3000/a'' = Some \<lparr>data = 1, expires = 60000\<rparr>
    \<and> cache \<lparr>maxAge = 5, maxSize = 100\<rparr> 59999 (GET ''http://localhost:3000/a'')
         (respond (new_Response None 404 [] Map.empty)) w1
       = cache \<lparr>maxAge = 5, maxSize = 100\<rparr> 59999 (GET ''http://localhost:3000/a'') throws w1
    \<and> returned (cache \<lparr>maxAge = 5, maxSize = 100\<rparr> 59999 (GET ''http://localhost:3000/a'') throws w1)
       = Some (new_Response (Some ''hello'') 200 ''OK'' Map.empty)"
  using cache_instances_share_map [of "GET ''http://localhost:3000/a''" "GET ''http://localhost:3000/a''"
      "\<lparr>maxAge = 60, maxSize = 2\<rparr>" "\<lparr>maxAge = 5, maxSize = 100\<rparr>"
      "new_Response (Some ''hello'') 200 ''OK'' Map.empty" "\<lparr>objects = [], memoryCache = []\<rparr>"
      59999 0]
  by (simp add: ok_def new_Response_def Let_def)

section \<open>The life of a cache entry (C6)\<close>





section \<open>Segments of a path\<close>

lemma splitOn_nonempty: "splitOn c s \<noteq> []"
  by (induction s) (auto split: list.splits)

lemma splitOn_append:
  "splitOn c (a @ c # b) = splitOn c a @ splitOn c b"
proof (induction a)
  case Nil
  then show ?case by simp
next
  case (Cons d a)
  then show ?case
    using splitOn_nonempty [of c a] splitOn_nonempty [of c "a @ c # b"]
    by (cases "splitOn c a") (auto split: list.splits)
qed

lemma splitOn_no_sep: "s \<in> set (splitOn c t) \<Longrightarrow> c \<notin> set s"
proof (induction t arbitrary: s)
  case Nil
  then show ?case by simp
next
  case (Cons d t)
  then show ?case
    using splitOn_nonempty [of c t]
    by (cases "splitOn c t") (auto split: if_splits)
qed

lemma splitOn_plain: "c \<notin> set s \<Longrightarrow> splitOn c s = [s]"
  by (induction s) auto

lemma joinWith_cons: "xs \<noteq> [] \<Longrightarrow> joinWith sep (x # xs) = x @ sep @ joinWith sep xs"
  by (cases xs) simp_all

lemma splitOn_joinWith:
  "xs \<noteq> [] \<Longrightarrow> \<forall>x\<in>set xs. CHR ''/'' \<notin> set x \<Longrightarrow> splitOn CHR ''/'' (joinWith ''/'' xs) = xs"
proof (induction xs)
  case Nil
  then show ?case by simp
next
  case (Cons x xs)
  show ?case
  proof (cases xs)
    case Nil
    with Cons.prems show ?thesis by (simp add: splitOn_plain)
  next
    case (Cons y ys)
    then have "joinWith ''/'' (x # xs) = x @ CHR ''/'' # joinWith ''/'' xs" by simp
    moreover have "splitOn CHR ''/'' (joinWith ''/'' xs) = xs"
      using Cons.IH Cons.prems Cons by simp
    ultimately show ?thesis using Cons.prems by (simp add: splitOn_append splitOn_plain)
  qed
qed

section \<open>Walks\<close>

lemma follow_append: "follow loc (xs @ ys) = follow (follow loc xs) ys"
  by (induction xs arbitrary: loc) auto

lemma follow_names: "\<forall>s\<in>set xs. stepName s \<Longrightarrow> follow loc xs = loc @ xs"
  by (induction xs arbitrary: loc) (auto simp: stepName_def)

lemma follow_stepNames:
  "\<forall>s\<in>set loc. stepName s \<Longrightarrow> \<forall>s\<in>set (follow loc xs). stepName s"
proof (induction xs arbitrary: loc)
  case Nil
  then show ?case by simp
next
  case (Cons x xs)
  have b: "\<forall>s\<in>set (butlast loc). stepName s" using Cons.prems by (auto dest: in_set_butlastD)
  show ?case
  proof (cases "x = [] \<or> x = ''.''")
    case True
    then show ?thesis using Cons by auto
  next
    case False
    show ?thesis
    proof (cases "x = ''..''")
      case True
      then show ?thesis using Cons.IH [OF b] by simp
    next
      case F2: False
      with False have "\<forall>s\<in>set (loc @ [x]). stepName s" using Cons.prems by (auto simp: stepName_def)
      from Cons.IH [OF this] False F2 show ?thesis by simp
    qed
  qed
qed

lemma follow_no_slash:
  "\<forall>s\<in>set loc. CHR ''/'' \<notin> set s \<Longrightarrow> \<forall>s\<in>set xs. CHR ''/'' \<notin> set s \<Longrightarrow>
     \<forall>s\<in>set (follow loc xs). CHR ''/'' \<notin> set s"
proof (induction xs arbitrary: loc)
  case Nil
  then show ?case by simp
next
  case (Cons x xs)
  have b: "\<forall>s\<in>set (butlast loc). CHR ''/'' \<notin> set s" using Cons.prems by (auto dest: in_set_butlastD)
  have a: "\<forall>s\<in>set (loc @ [x]). CHR ''/'' \<notin> set s" using Cons.prems by auto
  have r: "\<forall>s\<in>set xs. CHR ''/'' \<notin> set s" using Cons.prems by simp
  show ?case using Cons.IH [OF b r] Cons.IH [OF a r] Cons.IH [OF Cons.prems(1) r] by simp
qed

text \<open>The reference algorithm of the path module walks as \<open>follow\<close> does.\<close>

lemma normalizeSegments_absolute:
  "\<forall>s\<in>set res. s \<noteq> ''..'' \<Longrightarrow> normalizeSegments False res segs = follow (rev res) segs"
proof (induction segs arbitrary: res)
  case Nil
  then show ?case by simp
next
  case (Cons seg segs)
  have t: "\<forall>s\<in>set (tl res). s \<noteq> ''..''" using Cons.prems by (cases res) auto
  have bl: "rev (tl res) = butlast (rev res)" by (cases res) simp_all
  show ?case
  proof (cases "seg = [] \<or> seg = ''.''")
    case True
    then show ?thesis using Cons by auto
  next
    case False
    show ?thesis
    proof (cases "seg = ''..''")
      case True
      show ?thesis
      proof (cases res)
        case Nil
        with True Cons show ?thesis by simp
      next
        case (Cons a as)
        with True Cons.prems Cons.IH [OF t] bl show ?thesis by simp
      qed
    next
      case F2: False
      with False Cons.prems have "\<forall>s\<in>set (seg # res). s \<noteq> ''..''" by simp
      from Cons.IH [OF this] False F2 show ?thesis by simp
    qed
  qed
qed

lemma normalizeSegments_relative:
  "\<forall>s\<in>set st. s \<noteq> [] \<and> s \<noteq> ''.'' \<Longrightarrow>
     follow loc (normalizeSegments True st segs) = follow (follow loc (rev st)) segs"
proof (induction segs arbitrary: st)
  case Nil
  then show ?case by simp
next
  case (Cons seg segs)
  show ?case
  proof (cases "seg = [] \<or> seg = ''.''")
    case True
    then show ?thesis using Cons by auto
  next
    case False
    show ?thesis
    proof (cases "seg = ''..''")
      case True
      show ?thesis
      proof (cases "st \<noteq> [] \<and> hd st \<noteq> ''..''")
        case pop: True
        then obtain a as where st: "st = a # as" by (cases st) auto
        with pop Cons.prems have a: "a \<noteq> []" "a \<noteq> ''.''" "a \<noteq> ''..''" by auto
        have as: "\<forall>s\<in>set as. s \<noteq> [] \<and> s \<noteq> ''.''" using Cons.prems st by simp
        have "follow loc (rev st) = follow loc (rev as) @ [a]"
          using a by (simp add: st follow_append)
        then show ?thesis using True pop st Cons.IH [OF as] by simp
      next
        case keep: False
        have p: "\<forall>s\<in>set (''..'' # st). s \<noteq> [] \<and> s \<noteq> ''.''" using Cons.prems by simp
        have "follow loc (rev (''..'' # st)) = butlast (follow loc (rev st))"
          by (simp add: follow_append)
        then show ?thesis using True keep Cons.IH [OF p] by auto
      qed
    next
      case F2: False
      with False Cons.prems have p: "\<forall>s\<in>set (seg # st). s \<noteq> [] \<and> s \<noteq> ''.''" by simp
      have "follow loc (rev (seg # st)) = follow loc (rev st) @ [seg]"
        using False F2 by (simp add: follow_append)
      then show ?thesis using False F2 Cons.IH [OF p] by simp
    qed
  qed
qed

section \<open>Rendering a location\<close>

lemma joinWith_nonempty: "xs \<noteq> [] \<Longrightarrow> hd xs \<noteq> [] \<Longrightarrow> joinWith sep xs \<noteq> []"
  by (cases xs; cases "tl xs") auto

lemma joinWith_append:
  "xs \<noteq> [] \<Longrightarrow> ys \<noteq> [] \<Longrightarrow> joinWith sep (xs @ ys) = joinWith sep xs @ sep @ joinWith sep ys"
proof (induction xs)
  case Nil
  then show ?case by simp
next
  case (Cons x xs)
  show ?case
  proof (cases xs)
    case Nil
    with Cons.prems show ?thesis by (simp add: joinWith_cons)
  next
    case (Cons z zs)
    with Cons.IH Cons.prems show ?thesis by simp
  qed
qed

lemma joinWith_last:
  "xs \<noteq> [] \<Longrightarrow> goodLoc xs \<Longrightarrow> joinWith ''/'' xs \<noteq> [] \<and> last (joinWith ''/'' xs) \<noteq> CHR ''/''"
proof (induction xs)
  case Nil
  then show ?case by simp
next
  case (Cons x xs)
  show ?case
  proof (cases xs)
    case Nil
    have "x \<noteq> []" "CHR ''/'' \<notin> set x" using Cons.prems by (simp_all add: goodLoc_def)
    then have "last x \<noteq> CHR ''/''" using last_in_set [of x] by metis
    with Nil \<open>x \<noteq> []\<close> show ?thesis by simp
  next
    case (Cons z zs)
    then have "joinWith ''/'' xs \<noteq> [] \<and> last (joinWith ''/'' xs) \<noteq> CHR ''/''"
      using Cons.IH Cons.prems by (simp add: goodLoc_def)
    then show ?thesis using Cons by simp
  qed
qed

lemma joinWith_inj:
  assumes "goodLoc xs" and "goodLoc ys" and "joinWith ''/'' xs = joinWith ''/'' ys"
  shows "xs = ys"
proof -
  have empty: "joinWith ''/'' zs = [] \<longleftrightarrow> zs = []" if "goodLoc zs" for zs
  proof (cases "zs = []")
    case True
    then show ?thesis by simp
  next
    case False
    from joinWith_last [OF False that] False show ?thesis by blast
  qed
  have unsplit: "splitOn CHR ''/'' (joinWith ''/'' zs) = zs" if "goodLoc zs" and "zs \<noteq> []" for zs
    using that by (intro splitOn_joinWith) (auto simp: goodLoc_def)
  show ?thesis
  proof (cases "xs = []")
    case True
    then have "joinWith ''/'' ys = []" using assms(3) by simp
    then have "ys = []" using empty [OF assms(2)] by blast
    with True show ?thesis by blast
  next
    case False
    then have "joinWith ''/'' xs \<noteq> []" using empty [OF assms(1)] by blast
    then have "joinWith ''/'' ys \<noteq> []" unfolding assms(3) .
    then have y: "ys \<noteq> []" using empty [OF assms(2)] by blast
    have "xs = splitOn CHR ''/'' (joinWith ''/'' xs)" using unsplit [OF assms(1) False] by (rule sym)
    also have "\<dots> = splitOn CHR ''/'' (joinWith ''/'' ys)" unfolding assms(3) ..
    also have "\<dots> = ys" by (rule unsplit [OF assms(2) y])
    finally show ?thesis .
  qed
qed

lemma under_render:
  assumes gx: "goodLoc xs" and gy: "goodLoc ys"
  shows "under (CHR ''/'' # joinWith ''/'' ys) (CHR ''/'' # joinWith ''/'' xs) \<longleftrightarrow> prefix xs ys"
proof
  assume "prefix xs ys"
  then obtain zs where ys: "ys = xs @ zs" by (auto simp: prefix_def)
  show "under (CHR ''/'' # joinWith ''/'' ys) (CHR ''/'' # joinWith ''/'' xs)"
  proof (cases "zs = []")
    case True
    with ys show ?thesis by (simp add: under_def)
  next
    case zs: False
    show ?thesis
    proof (cases "xs = []")
      case True
      then show ?thesis by (simp add: under_def startsWith_def endsWith_def)
    next
      case False
      have "joinWith ''/'' ys = joinWith ''/'' xs @ CHR ''/'' # joinWith ''/'' zs"
        using False zs ys by (simp add: joinWith_append)
      then show ?thesis
        by (simp add: under_def startsWith_def nth_append)
    qed
  qed
next
  assume u: "under (CHR ''/'' # joinWith ''/'' ys) (CHR ''/'' # joinWith ''/'' xs)"
  show "prefix xs ys"
  proof (cases "xs = []")
    case True
    then show ?thesis by simp
  next
    case False
    have lastx: "joinWith ''/'' xs \<noteq> []" "last (joinWith ''/'' xs) \<noteq> CHR ''/''"
      using joinWith_last [OF False gx] by simp_all
    then have noend: "\<not> endsWith (CHR ''/'' # joinWith ''/'' xs) ''/''"
      by (auto simp: endsWith_def suffix_def Cons_eq_append_conv)
    show ?thesis
    proof (cases "joinWith ''/'' ys = joinWith ''/'' xs")
      case True
      then have "ys = xs" using joinWith_inj [OF gy gx] by simp
      then show ?thesis by simp
    next
      case neq: False
      let ?p = "CHR ''/'' # joinWith ''/'' ys" and ?r = "CHR ''/'' # joinWith ''/'' xs"
      from u have "?p = ?r \<or> (prefix ?r ?p \<and>
           (endsWith ?r ''/'' \<or> (length ?r < length ?p \<and> ?p ! length ?r = CHR ''/'')))"
        unfolding under_def startsWith_def .
      moreover have "?p \<noteq> ?r" using neq by blast
      ultimately have p: "prefix ?r ?p"
        and l: "length ?r < length ?p"
        and c: "?p ! length ?r = CHR ''/''"
        using noend by blast+
      from p obtain rest where r: "joinWith ''/'' ys = joinWith ''/'' xs @ rest"
        by (auto simp: prefix_def)
      with l have rne: "rest \<noteq> []" by auto
      from c r have "rest ! 0 = CHR ''/''" by (simp add: nth_append)
      with rne obtain rest' where rest: "rest = CHR ''/'' # rest'" by (cases rest) auto
      have yne: "ys \<noteq> []" using r lastx by auto
      have "splitOn CHR ''/'' (joinWith ''/'' ys) = ys"
        using yne gy by (intro splitOn_joinWith) (auto simp: goodLoc_def)
      moreover have "splitOn CHR ''/'' (joinWith ''/'' xs) = xs"
        using False gx by (intro splitOn_joinWith) (auto simp: goodLoc_def)
      ultimately have "ys = xs @ splitOn CHR ''/'' rest'"
        using r rest by (simp add: splitOn_append)
      then show ?thesis by (simp add: prefix_def)
    qed
  qed
qed

section \<open>resolve and the location of a path\<close>

lemma follow_skip_empty: "follow loc (xs @ [[]]) = follow loc xs"
  by (simp add: follow_append)

lemma path_resolve_location:
  assumes "isAbsolute wd"
  shows "path_resolve wd path = CHR ''/'' # joinWith ''/'' (location wd path)"
proof -
  have wd: "wd \<noteq> []" using assms by (auto simp: isAbsolute_def)
  have ns: "normalizeSegments False [] segs = follow [] segs" for segs
    using normalizeSegments_absolute [of "[]" segs] by simp
  show ?thesis
  proof (cases "path = []")
    case True
    have "splitOn CHR ''/'' (wd @ ''/'') = splitOn CHR ''/'' wd @ [[]]"
      using splitOn_append [of "CHR ''/''" wd "[]"] by simp
    then show ?thesis
      using True wd assms
      by (simp add: path_resolve_def normalizeString_def location_def isAbsolute_def ns follow_append)
  next
    case False
    have sp: "splitOn CHR ''/'' (path @ ''/'') = splitOn CHR ''/'' path @ [[]]"
      using splitOn_append [of "CHR ''/''" path "[]"] by simp
    show ?thesis
    proof (cases "isAbsolute path")
      case True
      then show ?thesis
        using False sp
        by (simp add: path_resolve_def normalizeString_def location_def ns follow_append)
    next
      case rel: False
      have "splitOn CHR ''/'' (wd @ ''/'' @ path @ ''/'')
              = splitOn CHR ''/'' wd @ splitOn CHR ''/'' path @ [[]]"
        using splitOn_append [of "CHR ''/''" wd "path @ ''/''"] sp by simp
      then show ?thesis
        using False rel wd assms
        by (simp add: path_resolve_def normalizeString_def location_def ns follow_append)
    qed
  qed
qed

lemma follow_goodLoc:
  assumes "\<forall>t\<in>set loc. stepName t \<and> CHR ''/'' \<notin> set t"
  shows "\<forall>t\<in>set (follow loc (splitOn CHR ''/'' s)). stepName t \<and> CHR ''/'' \<notin> set t"
proof -
  have a: "\<forall>t\<in>set (splitOn CHR ''/'' s). CHR ''/'' \<notin> set t"
    using splitOn_no_sep by blast
  have n: "\<forall>t\<in>set loc. stepName t" and f: "\<forall>t\<in>set loc. CHR ''/'' \<notin> set t"
    using assms by blast+
  from follow_stepNames [OF n] follow_no_slash [OF f a] show ?thesis by blast
qed

lemma location_clean: "\<forall>t\<in>set (location wd path). stepName t \<and> CHR ''/'' \<notin> set t"
proof -
  have e: "\<forall>t\<in>set ([] :: string list). stepName t \<and> CHR ''/'' \<notin> set t" by simp
  show ?thesis
  proof (cases "isAbsolute path")
    case True
    then have "location wd path = follow [] (splitOn CHR ''/'' path)" by (simp add: location_def)
    with follow_goodLoc [OF e] show ?thesis by simp
  next
    case False
    then have "location wd path = follow (follow [] (splitOn CHR ''/'' wd)) (splitOn CHR ''/'' path)"
      by (simp add: location_def)
    with follow_goodLoc [OF follow_goodLoc [OF e]] show ?thesis by simp
  qed
qed

lemma clean_goodLoc: "\<forall>t\<in>set loc. stepName t \<and> CHR ''/'' \<notin> set t \<Longrightarrow> goodLoc loc"
  by (simp add: goodLoc_def stepName_def)

lemma location_goodLoc: "goodLoc (location wd path)"
  by (rule clean_goodLoc) (rule location_clean)

lemma isPathUnderRoot_contained:
  "isAbsolute wd \<Longrightarrow> isPathUnderRoot wd filePath rootDir \<longleftrightarrow> contained wd rootDir filePath"
  using under_render [OF location_goodLoc [of wd rootDir] location_goodLoc [of wd filePath]]
  by (simp add: isPathUnderRoot_def Let_def path_resolve_location under_def contained_def)

section \<open>Empty segments do not matter\<close>

lemma follow_filter: "follow loc (filter (\<lambda>t. t \<noteq> []) segs) = follow loc segs"
  by (induction segs arbitrary: loc) auto

lemma follow_ne_segs: "follow loc (splitOn CHR ''/'' s) = follow loc (ne_segs s)"
  by (simp add: ne_segs_def follow_filter)

lemma splitOn_slash_cons: "splitOn CHR ''/'' (CHR ''/'' # s) = [] # splitOn CHR ''/'' s"
  by simp

lemma splitOn_other_cons:
  "c \<noteq> CHR ''/'' \<Longrightarrow>
     splitOn CHR ''/'' (c # s) = (c # hd (splitOn CHR ''/'' s)) # tl (splitOn CHR ''/'' s)"
  using splitOn_nonempty [of "CHR ''/''" s] by (cases "splitOn CHR ''/'' s") auto

lemma splitOn_snoc_slash: "splitOn CHR ''/'' (s @ ''/'') = splitOn CHR ''/'' s @ [[]]"
  using splitOn_append [of "CHR ''/''" s "[]"] by simp

lemma ne_segs_slash: "ne_segs (CHR ''/'' # s) = ne_segs s"
  by (simp add: ne_segs_def)

lemma ne_segs_snoc_slash: "ne_segs (s @ ''/'') = ne_segs s"
  by (simp add: ne_segs_def splitOn_snoc_slash)

lemma ne_segs_strip: "ne_segs (stripLeadingSlashes s) = ne_segs s"
  by (induction s) (auto simp: stripLeadingSlashes_def ne_segs_def)

lemma split_hd_tl: "splitOn CHR ''/'' s = hd (splitOn CHR ''/'' s) # tl (splitOn CHR ''/'' s)"
  using splitOn_nonempty [of "CHR ''/''" s] by simp

lemma collapse_segments:
  "hd (splitOn CHR ''/'' (collapseSlashes s)) = hd (splitOn CHR ''/'' s) \<and>
   filter (\<lambda>t. t \<noteq> []) (tl (splitOn CHR ''/'' (collapseSlashes s)))
     = filter (\<lambda>t. t \<noteq> []) (tl (splitOn CHR ''/'' s))"
proof (induction s rule: collapseSlashes.induct)
  case 1
  show ?case by simp
next
  case (2 c)
  show ?case by simp
next
  case (3 c d cs)
  let ?X = "splitOn CHR ''/'' (collapseSlashes (d # cs))"
  let ?Y = "splitOn CHR ''/'' (d # cs)"
  have X: "?X = hd ?X # tl ?X" by (rule split_hd_tl)
  have Y: "?Y = hd ?Y # tl ?Y" by (rule split_hd_tl)
  show ?case
  proof (cases "c = CHR ''/'' \<and> d = CHR ''/''")
    case True
    then have ih: "hd ?X = hd ?Y"
      "filter (\<lambda>t. t \<noteq> []) (tl ?X) = filter (\<lambda>t. t \<noteq> []) (tl ?Y)"
      using 3 by simp_all
    have c1: "collapseSlashes (c # d # cs) = collapseSlashes (d # cs)" using True by simp
    have s1: "splitOn CHR ''/'' (c # d # cs) = [] # [] # splitOn CHR ''/'' cs" using True by simp
    have s2: "?Y = [] # splitOn CHR ''/'' cs" using True by simp
    show ?thesis unfolding c1 s1 using ih s2 by simp
  next
    case False
    then have ih: "hd ?X = hd ?Y"
      "filter (\<lambda>t. t \<noteq> []) (tl ?X) = filter (\<lambda>t. t \<noteq> []) (tl ?Y)"
      using 3 by simp_all
    have fe: "filter (\<lambda>t. t \<noteq> []) ?X = filter (\<lambda>t. t \<noteq> []) ?Y"
      by (subst X, subst Y) (simp add: ih)
    have c1: "collapseSlashes (c # d # cs) = c # collapseSlashes (d # cs)" using False by simp
    show ?thesis
    proof (cases "c = CHR ''/''")
      case True
      show ?thesis unfolding c1 using True fe by simp
    next
      case F2: False
      show ?thesis unfolding c1
        by (simp only: splitOn_other_cons [OF F2] list.sel ih)
    qed
  qed
qed

lemma ne_segs_collapse: "ne_segs (collapseSlashes s) = ne_segs s"
proof -
  let ?X = "splitOn CHR ''/'' (collapseSlashes s)"
  let ?Y = "splitOn CHR ''/'' s"
  have X: "?X = hd ?X # tl ?X" by (rule split_hd_tl)
  have Y: "?Y = hd ?Y # tl ?Y" by (rule split_hd_tl)
  have "filter (\<lambda>t. t \<noteq> []) ?X = filter (\<lambda>t. t \<noteq> []) ?Y"
    by (subst X, subst Y) (simp add: collapse_segments)
  then show ?thesis by (simp add: ne_segs_def)
qed

lemma ne_segs_normalizeUrlPath: "ne_segs (normalizeUrlPath p) = ne_segs p"
proof (cases "p = [] \<or> p = ''/''")
  case True
  then show ?thesis by (auto simp: normalizeUrlPath_def ne_segs_def)
next
  case False
  define n where "n = CHR ''/'' # collapseSlashes (stripLeadingSlashes p)"
  have n: "ne_segs n = ne_segs p"
    by (simp add: n_def ne_segs_slash ne_segs_collapse ne_segs_strip)
  have res: "normalizeUrlPath p = (if length n > 1 \<and> endsWith n ''/'' then butlast n else n)"
    using False by (simp add: normalizeUrlPath_def Let_def n_def)
  show ?thesis
  proof (cases "length n > 1 \<and> endsWith n ''/''")
    case True
    then have "n = butlast n @ ''/''"
      by (auto simp: endsWith_def suffix_def)
    then have "ne_segs n = ne_segs (butlast n)" using ne_segs_snoc_slash [of "butlast n"] by simp
    moreover have "normalizeUrlPath p = butlast n" unfolding res by (rule if_P [OF True])
    ultimately show ?thesis using n by simp
  next
    case False
    have "normalizeUrlPath p = n" unfolding res by (rule if_not_P [OF False])
    with n show ?thesis by simp
  qed
qed

lemma follow_normalizeUrlPath:
  "follow loc (splitOn CHR ''/'' (normalizeUrlPath p)) = follow loc (splitOn CHR ''/'' p)"
  by (simp add: follow_ne_segs ne_segs_normalizeUrlPath)

lemma follow_strip:
  "follow loc (splitOn CHR ''/'' (stripLeadingSlashes p)) = follow loc (splitOn CHR ''/'' p)"
  by (simp add: follow_ne_segs ne_segs_strip)

lemma strip_relative: "\<not> isAbsolute (stripLeadingSlashes p)"
  unfolding isAbsolute_def stripLeadingSlashes_def
  using hd_dropWhile [of "\<lambda>c. c = CHR ''/''" p] by auto

section \<open>normalize and join keep the location\<close>

lemma normalizeSegments_relative_clean:
  "\<forall>s\<in>set st. s \<noteq> [] \<and> s \<noteq> ''.'' \<and> CHR ''/'' \<notin> set s \<Longrightarrow>
   \<forall>s\<in>set segs. CHR ''/'' \<notin> set s \<Longrightarrow>
   \<forall>s\<in>set (normalizeSegments True st segs). s \<noteq> [] \<and> s \<noteq> ''.'' \<and> CHR ''/'' \<notin> set s"
proof (induction segs arbitrary: st)
  case Nil
  then show ?case by simp
next
  case (Cons seg segs)
  have r: "\<forall>s\<in>set segs. CHR ''/'' \<notin> set s" using Cons.prems(2) by simp
  have t: "\<forall>s\<in>set (tl st). s \<noteq> [] \<and> s \<noteq> ''.'' \<and> CHR ''/'' \<notin> set s"
    using Cons.prems(1) by (cases st) auto
  have d: "\<forall>s\<in>set (''..'' # st). s \<noteq> [] \<and> s \<noteq> ''.'' \<and> CHR ''/'' \<notin> set s"
    using Cons.prems(1) by simp
  show ?case
  proof (cases "seg = [] \<or> seg = ''.''")
    case True
    then show ?thesis using Cons.IH [OF Cons.prems(1) r] by auto
  next
    case False
    show ?thesis
    proof (cases "seg = ''..''")
      case True
      then show ?thesis using Cons.IH [OF t r] Cons.IH [OF d r] by simp
    next
      case F2: False
      have "\<forall>s\<in>set (seg # st). s \<noteq> [] \<and> s \<noteq> ''.'' \<and> CHR ''/'' \<notin> set s"
        using False Cons.prems by simp
      from Cons.IH [OF this r] False F2 show ?thesis by simp
    qed
  qed
qed

lemma joinWith_hd:
  "xs \<noteq> [] \<Longrightarrow> goodLoc xs \<Longrightarrow> joinWith ''/'' xs \<noteq> [] \<and> hd (joinWith ''/'' xs) \<noteq> CHR ''/''"
proof -
  assume ne: "xs \<noteq> []" and g: "goodLoc xs"
  then obtain x rest where xs: "xs = x # rest" by (cases xs) auto
  have x: "x \<noteq> []" "CHR ''/'' \<notin> set x" using g xs by (simp_all add: goodLoc_def)
  then have h: "hd x \<noteq> CHR ''/''" using hd_in_set [of x] by metis
  show ?thesis
  proof (cases rest)
    case Nil
    with xs x h show ?thesis by simp
  next
    case (Cons y ys)
    with xs x h show ?thesis by simp
  qed
qed

lemma joinWith_empty_iff: "goodLoc xs \<Longrightarrow> joinWith ''/'' xs = [] \<longleftrightarrow> xs = []"
  using joinWith_hd [of xs] by (cases "xs = []") auto

lemma split_joined:
  "goodLoc xs \<Longrightarrow> xs \<noteq> [] \<Longrightarrow> splitOn CHR ''/'' (joinWith ''/'' xs) = xs"
  by (intro splitOn_joinWith) (auto simp: goodLoc_def)

lemma follow_cons_empty: "follow loc ([] # segs) = follow loc segs"
  by simp

lemma location_relative:
  "\<not> isAbsolute path \<Longrightarrow>
     location wd path = follow (location wd []) (splitOn CHR ''/'' path)"
  by (auto simp: location_def isAbsolute_def)

lemma location_empty: "location wd [] = follow [] (splitOn CHR ''/'' wd)"
  by (simp add: location_def isAbsolute_def)

lemma location_normalize_absolute:
  assumes ab: "isAbsolute x"
  shows "location wd (path_normalize x) = location wd x"
proof -
  define L where "L = follow [] (splitOn CHR ''/'' x)"
  have x: "x \<noteq> []" using ab by (simp add: isAbsolute_def)
  have ns: "normalizeSegments False [] (splitOn CHR ''/'' x) = L"
    using normalizeSegments_absolute [of "[]" "splitOn CHR ''/'' x"] by (simp add: L_def)
  have loc: "location wd x = L" using ab by (simp add: location_def L_def)
  have clean: "\<forall>t\<in>set L. stepName t \<and> CHR ''/'' \<notin> set t"
    using location_clean [of wd x] loc by simp
  have g: "goodLoc L" by (rule clean_goodLoc [OF clean])
  have idL: "follow [] L = L" using follow_names [of L "[]"] clean by simp
  have p: "normalizeString x (\<not> isAbsolute x) = joinWith ''/'' L"
    using ab by (simp add: normalizeString_def ns)
  show ?thesis
  proof (cases "L = []")
    case True
    then have "path_normalize x = ''/''"
      using x ab p by (simp add: path_normalize_def Let_def)
    then show ?thesis using loc True by (simp add: location_def isAbsolute_def)
  next
    case False
    then have jne: "joinWith ''/'' L \<noteq> []" using joinWith_empty_iff [OF g] by simp
    define tr where "tr = (if last x = CHR ''/'' then ''/'' else [])"
    have res: "path_normalize x = CHR ''/'' # joinWith ''/'' L @ tr"
      using x ab p jne by (simp add: path_normalize_def Let_def tr_def)
    have sp: "splitOn CHR ''/'' (joinWith ''/'' L @ tr) = L \<or>
              splitOn CHR ''/'' (joinWith ''/'' L @ tr) = L @ [[]]"
      using split_joined [OF g False] by (simp add: tr_def splitOn_snoc_slash)
    have "location wd (path_normalize x) = follow [] (splitOn CHR ''/'' (joinWith ''/'' L @ tr))"
      unfolding res by (simp add: location_def isAbsolute_def)
    also have "\<dots> = L" using sp idL by (auto simp: follow_append)
    finally show ?thesis using loc by simp
  qed
qed

lemma location_normalize_relative:
  assumes rel: "\<not> isAbsolute x" and x: "x \<noteq> []"
  shows "location wd (path_normalize x) = location wd x"
proof -
  define W where "W = location wd []"
  define T where "T = normalizeSegments True [] (splitOn CHR ''/'' x)"
  have slashfree: "\<forall>s\<in>set (splitOn CHR ''/'' x). CHR ''/'' \<notin> set s"
    using splitOn_no_sep by blast
  have cleanT: "\<forall>s\<in>set T. s \<noteq> [] \<and> s \<noteq> ''.'' \<and> CHR ''/'' \<notin> set s"
    unfolding T_def by (rule normalizeSegments_relative_clean [OF _ slashfree]) simp
  then have g: "goodLoc T" by (simp add: goodLoc_def)
  have walk: "follow W T = follow W (splitOn CHR ''/'' x)"
    using normalizeSegments_relative [of "[]" W "splitOn CHR ''/'' x"] by (simp add: T_def)
  have loc: "location wd x = follow W (splitOn CHR ''/'' x)"
    unfolding W_def by (rule location_relative [OF rel])
  have p: "normalizeString x (\<not> isAbsolute x) = joinWith ''/'' T"
    using rel by (simp add: normalizeString_def T_def)
  show ?thesis
  proof (cases "T = []")
    case True
    then have "path_normalize x = ''.'' \<or> path_normalize x = ''./''"
      using x rel p by (simp add: path_normalize_def Let_def)
    then have "location wd (path_normalize x) = W"
      by (auto simp: location_def isAbsolute_def W_def)
    then show ?thesis using loc walk True by simp
  next
    case False
    have jne: "joinWith ''/'' T \<noteq> []" and jhd: "hd (joinWith ''/'' T) \<noteq> CHR ''/''"
      using joinWith_hd [OF False g] by simp_all
    define tr where "tr = (if last x = CHR ''/'' then ''/'' else [])"
    have res: "path_normalize x = joinWith ''/'' T @ tr"
      using x rel p jne by (simp add: path_normalize_def Let_def tr_def)
    have nrel: "\<not> isAbsolute (joinWith ''/'' T @ tr)"
      using jne jhd by (simp add: isAbsolute_def)
    have sp: "splitOn CHR ''/'' (joinWith ''/'' T @ tr) = T \<or>
              splitOn CHR ''/'' (joinWith ''/'' T @ tr) = T @ [[]]"
      using split_joined [OF g False] by (simp add: tr_def splitOn_snoc_slash)
    have "location wd (path_normalize x) = follow W (splitOn CHR ''/'' (joinWith ''/'' T @ tr))"
      unfolding res W_def by (rule location_relative [OF nrel])
    also have "\<dots> = follow W T" using sp by (auto simp: follow_append)
    finally show ?thesis using loc walk by simp
  qed
qed

lemma location_dot: "location wd ''.'' = location wd []"
  by (simp add: location_def isAbsolute_def)

lemma location_normalize: "location wd (path_normalize x) = location wd x"
proof (cases "x = []")
  case True
  then show ?thesis by (simp add: path_normalize_def location_dot)
next
  case False
  then show ?thesis
    using location_normalize_absolute [of x wd] location_normalize_relative [of x wd]
    by (cases "isAbsolute x") simp_all
qed

lemma location_join:
  assumes rel: "\<not> isAbsolute b"
  shows "location wd (path_join a b) = follow (location wd a) (splitOn CHR ''/'' b)"
proof (cases "a = []")
  case a: True
  show ?thesis
  proof (cases "b = []")
    case True
    with a show ?thesis by (simp add: path_join_def location_dot)
  next
    case False
    with a have "path_join a b = path_normalize b" by (simp add: path_join_def)
    then show ?thesis using a location_relative [OF rel, of wd] by (simp add: location_normalize)
  qed
next
  case a: False
  show ?thesis
  proof (cases "b = []")
    case True
    with a have "path_join a b = path_normalize a" by (simp add: path_join_def)
    then show ?thesis using True by (simp add: location_normalize)
  next
    case False
    with a have j: "path_join a b = path_normalize (a @ CHR ''/'' # b)" by (simp add: path_join_def)
    have ab: "isAbsolute (a @ CHR ''/'' # b) = isAbsolute a" using a by (simp add: isAbsolute_def)
    have "location wd (a @ CHR ''/'' # b) = follow (location wd a) (splitOn CHR ''/'' b)"
      by (simp add: location_def ab splitOn_append follow_append)
    then show ?thesis by (simp add: j location_normalize)
  qed
qed

lemma location_resolveStaticPath:
  "location wd (resolveStaticPath rootDir urlPath)
     = follow (location wd rootDir) (splitOn CHR ''/'' urlPath)"
  by (simp add: resolveStaticPath_def Let_def location_normalize
      location_join [OF strip_relative] follow_strip)

lemma contained_resolveStaticPath:
  "contained wd rootDir (resolveStaticPath rootDir urlPath) \<longleftrightarrow> \<not> escapes wd rootDir urlPath"
  by (simp add: contained_def escapes_def location_resolveStaticPath)

lemma escapes_normalizeUrlPath:
  "escapes wd rootDir (normalizeUrlPath urlPath) \<longleftrightarrow> escapes wd rootDir urlPath"
  by (simp add: escapes_def follow_normalizeUrlPath)

lemma contained_join_name:
  assumes c: "contained wd rootDir path" and n: "entryName name"
  shows "contained wd rootDir (path_join path name)"
proof -
  have "name \<noteq> []" "CHR ''/'' \<notin> set name" using n by (simp_all add: entryName_def)
  then have "hd name \<noteq> CHR ''/''" using hd_in_set [of name] by metis
  then have rel: "\<not> isAbsolute name" by (simp add: isAbsolute_def)
  have "splitOn CHR ''/'' name = [name]" using n by (simp add: entryName_def splitOn_plain)
  then have "location wd (path_join path name) = location wd path @ [name]"
    using n by (simp add: location_join [OF rel] entryName_def)
  then show ?thesis using c by (simp add: contained_def)
qed

lemma contained_root: "contained wd rootDir rootDir"
  by (simp add: contained_def)

section \<open>The filesystem calls of the handler\<close>

lemma serveFile_trace: "\<forall>op\<in>set (snd (serveFile P filePath stats m)). fs_path op = filePath"
  by (simp add: serveFile_def Let_def)

lemma serveIndex_trace: "\<forall>op\<in>set (snd (serveIndex P indexPath m)). fs_path op = indexPath"
  using serveFile_trace [of P indexPath _ m]
  by (auto simp: serveIndex_def split: sum.splits)

lemma serveDirectory_trace:
  assumes names: "\<forall>d es. readdir P d = Inr es \<longrightarrow> (\<forall>e\<in>set es. entryName e)"
    and c: "contained wd rootDir dirPath"
  shows "\<forall>op\<in>set (snd (serveDirectory P dirPath urlPath)). contained wd rootDir (fs_path op)"
proof (cases "readdir P dirPath")
  case (Inl e)
  then show ?thesis using c by (simp add: serveDirectory_def)
next
  case (Inr es)
  with names have "\<forall>e\<in>set es. entryName e" by blast
  then have "\<forall>e\<in>set es. contained wd rootDir (path_join dirPath e)"
    using contained_join_name [OF c] by blast
  then show ?thesis using Inr c by (auto simp: serveDirectory_def Let_def)
qed

lemma index_entryName: "entryName ''index.html''"
  by (simp add: entryName_def)

lemma handler_trace_contained:
  assumes names: "\<forall>d es. readdir P d = Inr es \<longrightarrow> (\<forall>e\<in>set es. entryName e)"
    and under: "\<And>x. isPathUnderRoot wd x rootDir \<longleftrightarrow> contained wd rootDir x"
    and wd: "wd = cwd P"
  shows "\<forall>op\<in>set (snd (handler P rootDir requestPath m options)). contained wd rootDir (fs_path op)"
proof (cases "m \<noteq> ''GET'' \<and> m \<noteq> ''HEAD''")
  case True
  then show ?thesis by (simp add: handler_def)
next
  case meth: False
  let ?rp = "normalizeUrlPath requestPath"
  let ?fp = "resolveStaticPath rootDir ?rp"
  show ?thesis
  proof (cases "isPathUnderRoot (cwd P) ?fp rootDir")
    case False
    then show ?thesis using meth by (simp add: handler_def Let_def)
  next
    case True
    then have cf: "contained wd rootDir ?fp" using under wd by simp
    have ci: "contained wd rootDir (path_join ?fp ''index.html'')"
      by (rule contained_join_name [OF cf index_entryName])
    have cr: "contained wd rootDir (path_join rootDir ''index.html'')"
      by (rule contained_join_name [OF contained_root index_entryName])
    have sf: "\<forall>op\<in>set (snd (serveFile P ?fp st m)). contained wd rootDir (fs_path op)" for st
      using serveFile_trace [of P ?fp st m] cf by simp
    have si: "\<forall>op\<in>set (snd (serveIndex P (path_join ?fp ''index.html'') m)).
                contained wd rootDir (fs_path op)"
      using serveIndex_trace [of P "path_join ?fp ''index.html''" m] ci by simp
    have sr: "\<forall>op\<in>set (snd (serveIndex P (path_join rootDir ''index.html'') m)).
                contained wd rootDir (fs_path op)"
      using serveIndex_trace [of P "path_join rootDir ''index.html''" m] cr by simp
    have sd: "\<forall>op\<in>set (snd (serveDirectory P ?fp ?rp)). contained wd rootDir (fs_path op)"
      by (rule serveDirectory_trace [OF names cf])
    obtain ri ti where i: "serveIndex P (path_join ?fp ''index.html'') m = (ri, ti)"
      by (cases "serveIndex P (path_join ?fp ''index.html'') m")
    obtain rr tr where r: "serveIndex P (path_join rootDir ''index.html'') m = (rr, tr)"
      by (cases "serveIndex P (path_join rootDir ''index.html'') m")
    have ti: "\<forall>op\<in>set ti. contained wd rootDir (fs_path op)" using si i by simp
    have tr: "\<forall>op\<in>set tr. contained wd rootDir (fs_path op)" using sr r by simp
    have m: "\<not> (m \<noteq> ''GET'' \<and> m \<noteq> ''HEAD'')" by (rule meth)
    show ?thesis
    proof (cases "stat P ?fp")
      case (Inl e)
      show ?thesis
        unfolding handler_def Let_def if_not_P [OF m] not_not if_P [OF True] not_True_eq_False
          if_False Inl sum.case r
        using cf tr by (auto split: option.splits)
    next
      case (Inr stats)
      show ?thesis
        unfolding handler_def Let_def if_not_P [OF m] not_not if_P [OF True] not_True_eq_False
          if_False Inr sum.case i
        using cf sf [of stats] sd ti by (auto split: option.splits)
    qed
  qed
qed

section \<open>Path traversal (C1)\<close>

lemma handler_forbidden:
  assumes "m = ''GET'' \<or> m = ''HEAD''"
    and "\<not> isPathUnderRoot (cwd P) (resolveStaticPath rootDir (normalizeUrlPath requestPath)) rootDir"
  shows "handler P rootDir requestPath m options = (forbidden, [])"
  using assms by (auto simp: handler_def Let_def)

lemma forbidden_status: "status forbidden = 403"
  by (simp add: forbidden_def new_Response_text_def new_Response_def)

text \<open>
  C1. With the process in an absolute working directory and directory entries that are
  names: when the URL path escapes the root directory, \<open>isPathUnderRoot\<close> is false of
  the resolved path, and the handler answers a \<open>GET\<close> or \<open>HEAD\<close> request with the
  status 403 response without any filesystem call; and every path the handler passes
  to a filesystem call, for any request, is under the root.
\<close>

theorem handler_traversal_forbidden:
  assumes wd: "isAbsolute (cwd P)"
    and names: "\<forall>d es. readdir P d = Inr es \<longrightarrow> (\<forall>e\<in>set es. entryName e)"
  shows "(escapes (cwd P) rootDir requestPath \<longrightarrow>
            \<not> isPathUnderRoot (cwd P) (resolveStaticPath rootDir requestPath) rootDir
          \<and> (m = ''GET'' \<or> m = ''HEAD'' \<longrightarrow>
               handler P rootDir requestPath m options = (forbidden, [])
             \<and> status forbidden = 403))
       \<and> (\<forall>op\<in>set (snd (handler P rootDir requestPath m options)).
             isPathUnderRoot (cwd P) (fs_path op) rootDir)"
proof (intro conjI impI)
  assume e: "escapes (cwd P) rootDir requestPath"
  show "\<not> isPathUnderRoot (cwd P) (resolveStaticPath rootDir requestPath) rootDir"
    using e by (simp add: isPathUnderRoot_contained [OF wd] contained_resolveStaticPath)
  assume m: "m = ''GET'' \<or> m = ''HEAD''"
  have "\<not> isPathUnderRoot (cwd P) (resolveStaticPath rootDir (normalizeUrlPath requestPath)) rootDir"
    using e
    by (simp add: isPathUnderRoot_contained [OF wd] contained_resolveStaticPath
        escapes_normalizeUrlPath)
  then show "handler P rootDir requestPath m options = (forbidden, [])"
    by (rule handler_forbidden [OF m])
  show "status forbidden = 403" by (rule forbidden_status)
next
  have "\<forall>op\<in>set (snd (handler P rootDir requestPath m options)).
          contained (cwd P) rootDir (fs_path op)"
    by (rule handler_trace_contained [OF names isPathUnderRoot_contained [OF wd] refl])
  then show "\<forall>op\<in>set (snd (handler P rootDir requestPath m options)).
          isPathUnderRoot (cwd P) (fs_path op) rootDir"
    by (simp add: isPathUnderRoot_contained [OF wd])
qed

lemma example_names:
  "\<forall>d es. readdir examplePlatform d = Inr es \<longrightarrow> (\<forall>e\<in>set es. entryName e)"
  by (auto simp: examplePlatform_def entryName_def split: if_splits)

lemma example_cwd: "isAbsolute (cwd examplePlatform)"
  by (simp add: examplePlatform_def isAbsolute_def)

lemma example_escape: "escapes ''/home/u'' ''/srv'' ''/../etc/passwd''"
  by (simp add: escapes_def location_def isAbsolute_def)

lemma example_paths:
  "normalizeUrlPath ''/docs/'' = ''/docs''"
  "resolveStaticPath ''/srv'' ''/docs'' = ''/srv/docs''"
  "resolveStaticPath ''/srv'' ''/'' = ''/srv''"
  "path_join ''/srv'' ''index.html'' = ''/srv/index.html''"
  "path_join ''/srv'' ''a.txt'' = ''/srv/a.txt''"
  "path_join ''/srv'' ''docs'' = ''/srv/docs''"
  "path_join ''/srv'' ''sub'' = ''/srv/sub''"
  "isPathUnderRoot ''/home/u'' ''/srv/docs'' ''/srv''"
  "isPathUnderRoot ''/home/u'' ''/srv'' ''/srv''"
  "\<not> endsWith ''/docs'' ''/''"
  "endsWith ''/'' ''/''"
  by code_simp+

lemma example_trace:
  "snd (handler examplePlatform ''/srv'' ''/'' ''GET''
          \<lparr>enableSPA = False, enableDirectoryListing = True\<rparr>)
     = [Stat ''/srv'', ExistsSync ''/srv/index.html'', Readdir ''/srv'',
        Stat ''/srv/a.txt'', Stat ''/srv/docs'', Stat ''/srv/sub'']"
  by (simp add: handler_def Let_def normalizeUrlPath_def example_paths examplePlatform_def
      exampleDirectory_def serveIndex_def serveDirectory_def)

theorem handler_traversal_forbidden_witness:
  "isAbsolute (cwd examplePlatform)
   \<and> escapes (cwd examplePlatform) ''/srv'' ''/../etc/passwd''
   \<and> \<not> isPathUnderRoot (cwd examplePlatform) (resolveStaticPath ''/srv'' ''/../etc/passwd'') ''/srv''
   \<and> handler examplePlatform ''/srv'' ''/../etc/passwd'' ''GET''
        \<lparr>enableSPA = False, enableDirectoryListing = True\<rparr> = (forbidden, [])
   \<and> list_all (\<lambda>op. isPathUnderRoot (cwd examplePlatform) (fs_path op) ''/srv'')
        [Stat ''/srv'', ExistsSync ''/srv/index.html'', Readdir ''/srv'',
         Stat ''/srv/a.txt'', Stat ''/srv/docs'', Stat ''/srv/sub'']"
proof -
  let ?o = "\<lparr>enableSPA = False, enableDirectoryListing = True\<rparr>"
  have e: "escapes (cwd examplePlatform) ''/srv'' ''/../etc/passwd''"
    using example_escape by (simp add: examplePlatform_def)
  note t1 = handler_traversal_forbidden [OF example_cwd example_names,
      of "''/srv''" "''/../etc/passwd''" "''GET''" ?o]
  note t2 = handler_traversal_forbidden [OF example_cwd example_names,
      of "''/srv''" "''/''" "''GET''" ?o]
  from t1 e have a: "\<not> isPathUnderRoot (cwd examplePlatform)
        (resolveStaticPath ''/srv'' ''/../etc/passwd'') ''/srv''"
    and b: "handler examplePlatform ''/srv'' ''/../etc/passwd'' ''GET'' ?o = (forbidden, [])"
    by blast+
  from t2 have "\<forall>op\<in>set (snd (handler examplePlatform ''/srv'' ''/'' ''GET'' ?o)).
             isPathUnderRoot (cwd examplePlatform) (fs_path op) ''/srv''"
    by blast
  then have c: "list_all (\<lambda>op. isPathUnderRoot (cwd examplePlatform) (fs_path op) ''/srv'')
        [Stat ''/srv'', ExistsSync ''/srv/index.html'', Readdir ''/srv'',
         Stat ''/srv/a.txt'', Stat ''/srv/docs'', Stat ''/srv/sub'']"
    unfolding example_trace by (simp only: list_all_iff)
  from example_cwd e a b c show ?thesis by blast
qed

section \<open>A directory requested with a trailing slash (C2)\<close>

lemma normalForm_no_trailing_slash:
  "normalizeUrlPath p \<noteq> ''/'' \<Longrightarrow> \<not> endsWith (normalizeUrlPath p) ''/''"
  using normalizeUrlPath_normalForm [of p] by (auto simp: normalForm_def endsWith_slash)

text \<open>
  Any directory other than the root is answered with the redirect, whether the
  requested URL ends with a slash or not: the trailing slash is cut by
  \<open>normalizeUrlPath\<close> before the handler looks for it.
\<close>

lemma handler_directory_redirects:
  assumes m: "m = ''GET'' \<or> m = ''HEAD''"
    and u: "isPathUnderRoot (cwd P) (resolveStaticPath rootDir (normalizeUrlPath requestPath)) rootDir"
    and st: "stat P (resolveStaticPath rootDir (normalizeUrlPath requestPath)) = Inr stats"
    and dir: "\<not> isFile stats" "isDirectory stats"
    and notroot: "normalizeUrlPath requestPath \<noteq> ''/''"
  shows "handler P rootDir requestPath m options
           = (redirect (normalizeUrlPath requestPath @ ''/''),
              [Stat (resolveStaticPath rootDir (normalizeUrlPath requestPath))])"
  using m u st dir normalForm_no_trailing_slash [OF notroot]
  by (auto simp: handler_def Let_def)

text \<open>
  C2, at \<open>GET /docs/\<close> for the directory \<open>/srv/docs\<close>, which has no \<open>index.html\<close>,
  with directory listing enabled: the handler answers with the 301 redirect to
  \<open>/docs/\<close> after one \<open>stat\<close>, and never reads the directory.
\<close>

theorem handler_trailing_slash_redirects:
  "handler examplePlatform ''/srv'' ''/docs/'' ''GET''
      \<lparr>enableSPA = False, enableDirectoryListing = True\<rparr>
     = (redirect ''/docs/'', [Stat ''/srv/docs''])
   \<and> status (redirect ''/docs/'') = 301
   \<and> headers_get (headers (redirect ''/docs/'')) ''Location'' = Some ''/docs/''
   \<and> stat examplePlatform ''/srv/docs'' = Inr exampleDirectory
   \<and> isDirectory exampleDirectory
   \<and> \<not> existsSync examplePlatform ''/srv/docs/index.html''"
  by (simp add: handler_def Let_def example_paths examplePlatform_def exampleDirectory_def
      redirect_def new_Response_def headers_get_def headers_set_def
      toLowerCase_def toLowerChar_def)

end
